theory Spec2Isabelle
  imports Main "HOL-Library.Sublist" "HOL-Library.Multiset"
begin

unbundle bit_operations_syntax

section \<open>Python values\<close>

text \<open>
  A Python \<open>bytes\<close> object is a list of 8-bit values, a \<open>str\<close> a list of Unicode code
  points. Exceptions are values of \<open>py_error\<close>; a function that can raise returns
  \<open>py_error + 'a\<close>, with \<open>Inl\<close> the exception.
\<close>

type_synonym bytes = "char list"
type_synonym str = "nat list"

datatype py_error = IndexError | UnicodeDecodeError | UnicodeEncodeError

text \<open>A \<open>str\<close> literal of ASCII characters.\<close>

definition str_of :: "string \<Rightarrow> str" where
  "str_of s = map of_char s"

text \<open>\<open>data[i]\<close> on bytes: a negative index counts from the end, out of range raises.\<close>

definition getitem :: "bytes \<Rightarrow> int \<Rightarrow> py_error + int" where
  "getitem data i =
     (let n = int (length data); j = (if i < 0 then n + i else i)
      in if 0 \<le> j \<and> j < n then Inr (of_char (data ! nat j)) else Inl IndexError)"

text \<open>\<open>data[lo:hi]\<close> for \<open>0 \<le> lo\<close> and \<open>0 \<le> hi\<close>: clipped at the end, empty when \<open>hi \<le> lo\<close>.\<close>

definition slice :: "'a list \<Rightarrow> nat \<Rightarrow> nat \<Rightarrow> 'a list" where
  "slice data lo hi = take (hi - lo) (drop lo data)"

text \<open>\<open>needle in haystack\<close> on sequences: the needle occurs as a contiguous run.\<close>

fun contains :: "'a list \<Rightarrow> 'a list \<Rightarrow> bool" where
  "contains needle [] = (needle = [])"
| "contains needle (c # cs) = (prefix needle (c # cs) \<or> contains needle cs)"

text \<open>\<open>haystack.find(needle)\<close>: the lowest index of an occurrence; \<open>None\<close> is Python's -1.\<close>

fun find_bytes :: "'a list \<Rightarrow> 'a list \<Rightarrow> nat option" where
  "find_bytes [] needle = (if needle = [] then Some 0 else None)"
| "find_bytes (c # cs) needle =
     (if prefix needle (c # cs) then Some 0 else map_option Suc (find_bytes cs needle))"

text \<open>\<open>text.split(sep)\<close> for a one-character separator: never an empty list.\<close>

fun py_split :: "nat \<Rightarrow> str \<Rightarrow> str list" where
  "py_split sep [] = [[]]"
| "py_split sep (c # cs) =
     (if c = sep then [] # py_split sep cs
      else (case py_split sep cs of
              [] \<Rightarrow> [[c]]
            | l # ls \<Rightarrow> (c # l) # ls))"

section \<open>Codecs and character classes\<close>

text \<open>
  The UTF-8 decoder of CPython reads one scalar value at a time. A malformed or truncated
  sequence is reported with the number of bytes the error spans: one for an invalid start
  byte, the valid prefix for an invalid continuation byte, the rest of the input for a
  sequence cut off by the end of the data. Overlong forms, surrogates and values above
  U+10FFFF are malformed.
\<close>

datatype errors = Strict | Replace | Ignore

datatype utf8_step = Decoded nat nat | Malformed nat

definition is_continuation :: "nat \<Rightarrow> bool" where
  "is_continuation b = (0x80 \<le> b \<and> b < 0xC0)"

fun utf8_decode_one :: "nat list \<Rightarrow> utf8_step" where
  "utf8_decode_one [] = Malformed 0"
| "utf8_decode_one (ch # rest) =
     (if ch < 0x80 then Decoded ch 1
      else if ch < 0xC2 then Malformed 1
      else if ch < 0xE0 then
        (case rest of
           [] \<Rightarrow> Malformed 1
         | ch2 # _ \<Rightarrow>
             if \<not> is_continuation ch2 then Malformed 1
             else Decoded ((ch - 0xC0) * 64 + (ch2 - 0x80)) 2)
      else if ch < 0xF0 then
        (case rest of
           [] \<Rightarrow> Malformed 1
         | ch2 # rest2 \<Rightarrow>
             if \<not> is_continuation ch2 \<or> (ch = 0xE0 \<and> ch2 < 0xA0) \<or> (ch = 0xED \<and> 0xA0 \<le> ch2)
             then Malformed 1
             else (case rest2 of
                     [] \<Rightarrow> Malformed 2
                   | ch3 # _ \<Rightarrow>
                       if \<not> is_continuation ch3 then Malformed 2
                       else Decoded ((ch - 0xE0) * 4096 + (ch2 - 0x80) * 64 + (ch3 - 0x80)) 3))
      else if ch < 0xF5 then
        (case rest of
           [] \<Rightarrow> Malformed 1
         | ch2 # rest2 \<Rightarrow>
             if \<not> is_continuation ch2 \<or> (ch = 0xF0 \<and> ch2 < 0x90) \<or> (ch = 0xF4 \<and> 0x90 \<le> ch2)
             then Malformed 1
             else (case rest2 of
                     [] \<Rightarrow> Malformed 2
                   | ch3 # rest3 \<Rightarrow>
                       if \<not> is_continuation ch3 then Malformed 2
                       else (case rest3 of
                               [] \<Rightarrow> Malformed 3
                             | ch4 # _ \<Rightarrow>
                                 if \<not> is_continuation ch4 then Malformed 3
                                 else Decoded ((ch - 0xF0) * 262144 + (ch2 - 0x80) * 4096
                                                + (ch3 - 0x80) * 64 + (ch4 - 0x80)) 4)))
      else Malformed 1)"

text \<open>
  \<open>blob.decode("utf-8", errors=eh)\<close> over the byte values: \<open>strict\<close> raises at the first
  malformed sequence, \<open>replace\<close> puts U+FFFD for it, \<open>ignore\<close> drops it.
\<close>

fun utf8_decode_values :: "errors \<Rightarrow> nat list \<Rightarrow> py_error + str" where
  "utf8_decode_values eh [] = Inr []"
| "utf8_decode_values eh (b # bs) =
     (case utf8_decode_one (b # bs) of
        Decoded cp n \<Rightarrow>
          (case utf8_decode_values eh (drop (n - 1) bs) of
             Inl e \<Rightarrow> Inl e
           | Inr s \<Rightarrow> Inr (cp # s))
      | Malformed n \<Rightarrow>
          (case eh of
             Strict \<Rightarrow> Inl UnicodeDecodeError
           | Replace \<Rightarrow>
               (case utf8_decode_values eh (drop (n - 1) bs) of
                  Inl e \<Rightarrow> Inl e
                | Inr s \<Rightarrow> Inr (0xFFFD # s))
           | Ignore \<Rightarrow> utf8_decode_values eh (drop (n - 1) bs)))"

definition utf8_decode :: "errors \<Rightarrow> bytes \<Rightarrow> py_error + str" where
  "utf8_decode eh blob = utf8_decode_values eh (map of_char blob)"

text \<open>\<open>blob.decode("latin-1")\<close>: every byte is the code point of the same value.\<close>

definition latin1_decode :: "bytes \<Rightarrow> str" where
  "latin1_decode blob = map of_char blob"

text \<open>\<open>text.encode("utf-8")\<close>: a surrogate cannot be encoded and raises.\<close>

definition utf8_encode_one :: "nat \<Rightarrow> py_error + bytes" where
  "utf8_encode_one cp =
     (if cp < 0x80 then Inr [char_of cp]
      else if cp < 0x800 then Inr [char_of (0xC0 + cp div 64), char_of (0x80 + cp mod 64)]
      else if 0xD800 \<le> cp \<and> cp < 0xE000 then Inl UnicodeEncodeError
      else if cp < 0x10000 then
        Inr [char_of (0xE0 + cp div 4096), char_of (0x80 + cp div 64 mod 64),
             char_of (0x80 + cp mod 64)]
      else
        Inr [char_of (0xF0 + cp div 262144), char_of (0x80 + cp div 4096 mod 64),
             char_of (0x80 + cp div 64 mod 64), char_of (0x80 + cp mod 64)])"

fun utf8_encode :: "str \<Rightarrow> py_error + bytes" where
  "utf8_encode [] = Inr []"
| "utf8_encode (cp # cps) =
     (case utf8_encode_one cp of
        Inl e \<Rightarrow> Inl e
      | Inr bs \<Rightarrow> (case utf8_encode cps of Inl e \<Rightarrow> Inl e | Inr rest \<Rightarrow> Inr (bs @ rest)))"

text \<open>
  \<open>c.isprintable()\<close>: on ASCII the characters from space to tilde. Beyond ASCII the
  answer is a table of the Unicode character database, the parameter \<open>up\<close>.
\<close>

definition isprintable :: "(nat \<Rightarrow> bool) \<Rightarrow> nat \<Rightarrow> bool" where
  "isprintable up c = (if c < 0x80 then 0x20 \<le> c \<and> c < 0x7F else up c)"

text \<open>The characters \<open>str.strip()\<close> removes: those for which \<open>c.isspace()\<close> holds.\<close>

definition isspace :: "nat \<Rightarrow> bool" where
  "isspace c =
     ((0x09 \<le> c \<and> c \<le> 0x0D) \<or> (0x1C \<le> c \<and> c \<le> 0x20) \<or> c = 0x85 \<or> c = 0xA0
      \<or> c = 0x1680 \<or> (0x2000 \<le> c \<and> c \<le> 0x200A) \<or> c = 0x2028 \<or> c = 0x2029
      \<or> c = 0x202F \<or> c = 0x205F \<or> c = 0x3000)"

definition py_strip :: "str \<Rightarrow> str" where
  "py_strip text = rev (dropWhile isspace (rev (dropWhile isspace text)))"

text \<open>
  \<open>"".join(c if c.isprintable() or c in "\n\t\r" else "" for c in text)\<close>: the
  characters that are printable or newline, tab, carriage return, in order.
\<close>

definition keep_printable :: "(nat \<Rightarrow> bool) \<Rightarrow> str \<Rightarrow> str" where
  "keep_printable up text = filter (\<lambda>c. isprintable up c \<or> c \<in> set [0x0A, 0x09, 0x0D]) text"

section \<open>utils.py\<close>

subsection \<open>normalize_text\<close>

text \<open>
  The \<open>try\<close> decodes as UTF-8 with replacement; the handler catches
  \<open>UnicodeDecodeError\<close> only and decodes as latin-1. Any other exception leaves the
  function.
\<close>

definition normalize_text :: "(nat \<Rightarrow> bool) \<Rightarrow> bytes \<Rightarrow> py_error + str" where
  "normalize_text up blob =
     (case utf8_decode Replace blob of
        Inr text \<Rightarrow> Inr (py_strip (keep_printable up text))
      | Inl UnicodeDecodeError \<Rightarrow> Inr (py_strip (keep_printable up (latin1_decode blob)))
      | Inl e \<Rightarrow> Inl e)"

subsection \<open>is_internal_buffer\<close>

definition internal_markers :: "str list" where
  "internal_markers =
     [str_of ''deserializer'', str_of ''Workspace'', str_of ''packagesWithActiveGrammars'',
      str_of ''destroyedItemURIs'']"

text \<open>\<open>text.split("\n")[0][:200]\<close>, then \<open>any(marker in first_line ...)\<close>.\<close>

definition is_internal_buffer :: "str \<Rightarrow> py_error + bool" where
  "is_internal_buffer text =
     (if text = [] \<or> length text < 10 then Inr False
      else (case py_split 0x0A text of
              [] \<Rightarrow> Inl IndexError
            | line # _ \<Rightarrow>
                (let first_line = slice line 0 200
                 in Inr (list_ex (\<lambda>marker. contains marker first_line) internal_markers))))"

subsection \<open>decode_varint_length\<close>

definition decode_varint_length :: "bytes \<Rightarrow> int \<Rightarrow> py_error + (int \<times> int)" where
  "decode_varint_length data offset =
     (if offset \<ge> int (length data) then Inr (0, 0)
      else (case getitem data offset of
              Inl e \<Rightarrow> Inl e
            | Inr first_byte \<Rightarrow>
                (if first_byte < 128 then Inr (first_byte, 1)
                 else if offset + 1 \<ge> int (length data) then Inr (0, 0)
                 else (case getitem data (offset + 1) of
                         Inl e \<Rightarrow> Inl e
                       | Inr second_byte \<Rightarrow>
                           Inr ((first_byte AND 0x7F) OR (push_bit 7 second_byte), 2)))))"


section \<open>The regular expressions of utils.py\<close>

text \<open>
  The patterns are bytes patterns, so \<open>\s\<close> is the ASCII whitespace \<open>[ \t\n\r\f\v]\<close>.
  A matcher takes the input from the position tried and gives what the match captures and
  the input after the match. A repetition is greedy and backtracks: it first tries to take
  one more character, and hands over to the rest of the pattern when that fails.
\<close>

definition quote :: char where
  "quote = CHR 0x22"

definition is_space_byte :: "char \<Rightarrow> bool" where
  "is_space_byte c = (c \<in> set [CHR 0x20, CHR 0x09, CHR 0x0A, CHR 0x0D, CHR 0x0C, CHR 0x0B])"

definition is_hex_lower :: "char \<Rightarrow> bool" where
  "is_hex_lower c =
     (let v = (of_char c :: nat) in (0x61 \<le> v \<and> v \<le> 0x66) \<or> (0x30 \<le> v \<and> v \<le> 0x39))"

definition is_ctrl_or_space :: "char \<Rightarrow> bool" where
  "is_ctrl_or_space c = (is_space_byte c \<or> (of_char c :: nat) \<le> 0x1F)"

definition is_grammar_char :: "char \<Rightarrow> bool" where
  "is_grammar_char c =
     (let v = (of_char c :: nat)
      in (0x61 \<le> v \<and> v \<le> 0x7A) \<or> (0x30 \<le> v \<and> v \<le> 0x39) \<or> v = 0x2E \<or> v = 0x2D)"

text \<open>\<open>cls+\<close> followed by the pattern \<open>k\<close>.\<close>

fun greedy_plus :: "(char \<Rightarrow> bool) \<Rightarrow> (bytes \<Rightarrow> 'a option) \<Rightarrow> bytes \<Rightarrow> 'a option" where
  "greedy_plus cls k [] = None"
| "greedy_plus cls k (c # cs) =
     (if cls c then (case greedy_plus cls k cs of Some r \<Rightarrow> Some r | None \<Rightarrow> k cs)
      else None)"

text \<open>\<open>cls{1,n}\<close> followed by the pattern \<open>k\<close>.\<close>

fun greedy_upto :: "nat \<Rightarrow> (char \<Rightarrow> bool) \<Rightarrow> (bytes \<Rightarrow> 'a option) \<Rightarrow> bytes \<Rightarrow> 'a option" where
  "greedy_upto 0 cls k s = None"
| "greedy_upto (Suc n) cls k [] = None"
| "greedy_upto (Suc n) cls k (c # cs) =
     (if cls c then (case greedy_upto n cls k cs of Some r \<Rightarrow> Some r | None \<Rightarrow> k cs)
      else None)"

text \<open>\<open>([a-f0-9]{32})"\<close>: the group and the input after the closing quote.\<close>

definition hex32_quote :: "bytes \<Rightarrow> (bytes \<times> bytes) option" where
  "hex32_quote s =
     (let g = take 32 s
      in if length g = 32 \<and> list_all is_hex_lower g \<and> prefix [quote] (drop 32 s)
         then Some (g, drop 33 s) else None)"

text \<open>\<open>id"\s+([a-f0-9]{32})"\<close> at the start of \<open>s\<close>.\<close>

definition match_id :: "bytes \<Rightarrow> (bytes \<times> bytes) option" where
  "match_id s =
     (if prefix (''id'' @ [quote]) s then greedy_plus is_space_byte hex32_quote (drop 3 s)
      else None)"

text \<open>
  \<open>re.findall\<close> of that pattern: the groups of the matches found scanning from the left,
  each search resuming where the last match ended.
\<close>

function re_findall_ids :: "bytes \<Rightarrow> bytes list" where
  "re_findall_ids [] = []"
| "re_findall_ids (c # cs) =
     (case match_id (c # cs) of
        None \<Rightarrow> re_findall_ids cs
      | Some (g, rest) \<Rightarrow> g # re_findall_ids rest)"
  by pat_completeness auto

lemma greedy_plus_shorter:
  "\<forall>r x y. k r = Some (x, y) \<longrightarrow> length y \<le> length r \<Longrightarrow>
   greedy_plus cls k s = Some (g, rest) \<Longrightarrow> length rest < length s"
proof (induction s)
  case Nil
  then show ?case by simp
next
  case (Cons c cs)
  show ?case
  proof (cases "greedy_plus cls k cs")
    case None
    with Cons.prems(2) have "k cs = Some (g, rest)"
      by (simp split: if_splits)
    with Cons.prems(1) have "length rest \<le> length cs" by blast
    then show ?thesis by simp
  next
    case (Some r)
    with Cons.prems(2) have "greedy_plus cls k cs = Some (g, rest)"
      by (simp split: if_splits)
    with Cons.IH Cons.prems(1) have "length rest < length cs" by blast
    then show ?thesis by simp
  qed
qed

lemma hex32_quote_shorter: "hex32_quote r = Some (x, y) \<Longrightarrow> length y \<le> length r"
  by (auto simp: hex32_quote_def Let_def split: if_splits)

lemma match_id_shorter:
  assumes "match_id s = Some (g, rest)"
  shows "length rest < length s"
proof -
  from assms have m: "greedy_plus is_space_byte hex32_quote (drop 3 s) = Some (g, rest)"
    by (simp add: match_id_def split: if_splits)
  have "length rest < length (drop 3 s)"
  proof (rule greedy_plus_shorter)
    show "\<forall>r x y. hex32_quote r = Some (x, y) \<longrightarrow> length y \<le> length r"
      by (intro allI impI) (rule hex32_quote_shorter)
    show "greedy_plus is_space_byte hex32_quote (drop 3 s) = Some (g, rest)" by (fact m)
  qed
  then show ?thesis by simp
qed

termination re_findall_ids
proof (relation "measure length")
  show "wf (measure length)" by simp
next
  fix c cs
  show "(cs, c # cs) \<in> measure length" by simp
next
  fix c cs x2 x y
  assume "match_id (c # cs) = Some x2" and "(x, y) = x2"
  then have "match_id (c # cs) = Some (x, y)" by simp
  then have "length y < length (c # cs)" by (rule match_id_shorter)
  then show "(y, c # cs) \<in> measure length" by simp
qed


text \<open>
  \<open>id"\s+\<close> followed by the identifier and a quote, at the start of \<open>s\<close>. The
  identifier comes from \<open>re_findall_ids\<close>, so it has no character special to a pattern
  and stands for itself.
\<close>

definition match_id_literal :: "bytes \<Rightarrow> bytes \<Rightarrow> bool" where
  "match_id_literal bid s =
     (prefix (''id'' @ [quote]) s \<and>
      greedy_plus is_space_byte (\<lambda>r. if prefix (bid @ [quote]) r then Some r else None)
        (drop 3 s) \<noteq> None)"

text \<open>\<open>re.search(id_pattern, data).start()\<close>: where the leftmost match starts.\<close>

fun re_search_id :: "bytes \<Rightarrow> bytes \<Rightarrow> nat option" where
  "re_search_id bid [] = None"
| "re_search_id bid (c # cs) =
     (if match_id_literal bid (c # cs) then Some 0
      else map_option Suc (re_search_id bid cs))"

text \<open>\<open>((?:text|source)\.[a-z0-9.\-]+)\<close>, the end of the grammar pattern.\<close>

definition grammar_tag :: "bytes \<Rightarrow> (bytes \<times> bytes) option" where
  "grammar_tag s =
     (case (if prefix ''text'' s then Some ''text''
            else if prefix ''source'' s then Some ''source'' else None) of
        None \<Rightarrow> None
      | Some w \<Rightarrow>
          (let r = drop (length w) s
           in if prefix ''.'' r \<and> takeWhile is_grammar_char (drop 1 r) \<noteq> []
              then Some (w @ ''.'' @ takeWhile is_grammar_char (drop 1 r),
                         dropWhile is_grammar_char (drop 1 r))
              else None))"

text \<open>\<open>([a-f0-9]{32})"[\s\x00-\x1f]{1,5}((?:text|source)\.[a-z0-9.\-]+)\<close> at the start of \<open>s\<close>.\<close>

definition match_grammar :: "bytes \<Rightarrow> (bytes \<times> bytes \<times> bytes) option" where
  "match_grammar s =
     (let bid = take 32 s
      in if length bid = 32 \<and> list_all is_hex_lower bid \<and> prefix [quote] (drop 32 s)
         then (case greedy_upto 5 is_ctrl_or_space grammar_tag (drop 33 s) of
                 None \<Rightarrow> None
               | Some (grammar, rest) \<Rightarrow> Some (bid, grammar, rest))
         else None)"

function re_findall_grammars :: "bytes \<Rightarrow> (bytes \<times> bytes) list" where
  "re_findall_grammars [] = []"
| "re_findall_grammars (c # cs) =
     (case match_grammar (c # cs) of
        None \<Rightarrow> re_findall_grammars cs
      | Some (bid, grammar, rest) \<Rightarrow> (bid, grammar) # re_findall_grammars rest)"
  by pat_completeness auto

lemma greedy_upto_shorter:
  "\<forall>r x y. k r = Some (x, y) \<longrightarrow> length y \<le> length r \<Longrightarrow>
   greedy_upto n cls k s = Some (g, rest) \<Longrightarrow> length rest < length s"
proof (induction n arbitrary: s)
  case 0
  then show ?case by simp
next
  case (Suc n)
  show ?case
  proof (cases s)
    case Nil
    with Suc.prems(2) show ?thesis by simp
  next
    case (Cons c cs)
    show ?thesis
    proof (cases "greedy_upto n cls k cs")
      case None
      with Suc.prems(2) Cons have "k cs = Some (g, rest)"
        by (simp split: if_splits)
      with Suc.prems(1) have "length rest \<le> length cs" by blast
      with Cons show ?thesis by simp
    next
      case (Some r)
      with Suc.prems(2) Cons have "greedy_upto n cls k cs = Some (g, rest)"
        by (simp split: if_splits)
      with Suc.IH Suc.prems(1) have "length rest < length cs" by blast
      with Cons show ?thesis by simp
    qed
  qed
qed

lemma length_dropWhile_drop: "length (dropWhile P (drop n r)) \<le> length r"
  by (rule le_trans [OF length_dropWhile_le]) simp

lemma grammar_tag_shorter: "grammar_tag r = Some (x, y) \<Longrightarrow> length y \<le> length r"
  by (auto simp: grammar_tag_def Let_def length_dropWhile_drop split: if_splits)

lemma match_grammar_shorter:
  assumes "match_grammar s = Some (bid, grammar, rest)"
  shows "length rest < length s"
proof -
  from assms
  have m: "greedy_upto 5 is_ctrl_or_space grammar_tag (drop 33 s) = Some (grammar, rest)"
    by (auto simp: match_grammar_def Let_def split: if_splits option.splits)
  have "length rest < length (drop 33 s)"
  proof (rule greedy_upto_shorter)
    show "\<forall>r x y. grammar_tag r = Some (x, y) \<longrightarrow> length y \<le> length r"
      by (intro allI impI) (rule grammar_tag_shorter)
    show "greedy_upto 5 is_ctrl_or_space grammar_tag (drop 33 s) = Some (grammar, rest)"
      by (fact m)
  qed
  then show ?thesis by simp
qed

termination re_findall_grammars
proof (relation "measure length")
  show "wf (measure length)" by simp
next
  fix c cs
  show "(cs, c # cs) \<in> measure length" by simp
next
  fix c cs x2 x y xa ya
  assume "match_grammar (c # cs) = Some x2" and "(x, y) = x2" and "(xa, ya) = y"
  then have "match_grammar (c # cs) = Some (x, xa, ya)" by simp
  then have "length ya < length (c # cs)" by (rule match_grammar_shorter)
  then show "(ya, c # cs) \<in> measure length" by simp
qed


section \<open>utils.py: the extractors\<close>

subsection \<open>extract_buffer_grammars\<close>

text \<open>
  The loop over the matches: \<open>grammars[bid.decode()] = grammar.decode()\<close>. The right-hand
  side is evaluated first; \<open>decode()\<close> is strict UTF-8.
\<close>

fun grammars_loop :: "(bytes \<times> bytes) list \<Rightarrow> (str \<rightharpoonup> str) \<Rightarrow> py_error + (str \<rightharpoonup> str)" where
  "grammars_loop [] grammars = Inr grammars"
| "grammars_loop ((bid, grammar) # matches) grammars =
     (case utf8_decode Strict grammar of
        Inl e \<Rightarrow> Inl e
      | Inr v \<Rightarrow>
          (case utf8_decode Strict bid of
             Inl e \<Rightarrow> Inl e
           | Inr key \<Rightarrow> grammars_loop matches (grammars(key \<mapsto> v))))"

definition extract_buffer_grammars :: "bytes \<Rightarrow> py_error + (str \<rightharpoonup> str)" where
  "extract_buffer_grammars data = grammars_loop (re_findall_grammars data) Map.empty"

subsection \<open>extract_buffers_by_id\<close>

definition text_marker :: bytes where
  "text_marker = ''text'' @ [quote]"

text \<open>
  The \<open>try\<close> block on the payload bytes. The handler catches every exception, reports it
  and records empty bytes.
\<close>

definition clean_payload :: "(nat \<Rightarrow> bool) \<Rightarrow> bytes \<Rightarrow> bytes" where
  "clean_payload up text_bytes =
     (case utf8_decode Ignore text_bytes of
        Inl e \<Rightarrow> []
      | Inr text \<Rightarrow>
          (let clean = py_strip (keep_printable up text)
           in (case utf8_encode clean of Inl e \<Rightarrow> [] | Inr encoded \<Rightarrow> encoded)))"

text \<open>
  \<open>data[start_pos:min(len(data), start_pos + 2000)]\<close>: the window searched for the text
  marker.
\<close>

definition search_window :: "bytes \<Rightarrow> nat \<Rightarrow> bytes" where
  "search_window data start_pos =
     (let search_window_end = min (length data) (start_pos + 2000)
      in slice data start_pos search_window_end)"

text \<open>
  The loop body from the window on, given where the identifier's match starts: the bytes
  recorded for the identifier. An exception of \<open>decode_varint_length\<close> is not caught.
\<close>

definition extract_window :: "(nat \<Rightarrow> bool) \<Rightarrow> bytes \<Rightarrow> nat \<Rightarrow> py_error + bytes" where
  "extract_window up data start_pos =
     (let window = search_window data start_pos
      in (case find_bytes window text_marker of
            None \<Rightarrow> Inr []
          | Some text_pos \<Rightarrow>
              (let length_offset = text_pos + length text_marker
               in if length_offset \<ge> length window then Inr []
                  else (case decode_varint_length window (int length_offset) of
                          Inl e \<Rightarrow> Inl e
                        | Inr (text_length, bytes_consumed) \<Rightarrow>
                            (if text_length = 0 \<or> text_length > 10000 then Inr []
                             else (let content_start = int length_offset + bytes_consumed;
                                       content_end = content_start + text_length
                                   in if content_end > int (length window) then Inr []
                                      else Inr (clean_payload up
                                             (slice window (nat content_start)
                                                (nat content_end)))))))))"

text \<open>The whole loop body for one identifier.\<close>

definition extract_one :: "(nat \<Rightarrow> bool) \<Rightarrow> bytes \<Rightarrow> bytes \<Rightarrow> py_error + bytes" where
  "extract_one up data bid =
     (case re_search_id bid data of
        None \<Rightarrow> Inr []
      | Some start_pos \<Rightarrow> extract_window up data start_pos)"

text \<open>
  The loop over \<open>buffer_ids\<close>, each identifier stored under \<open>bid.decode()\<close>. A Python set
  has no fixed order of iteration; every identifier is visited once and written to a key
  of its own, so the order does not show in the mapping returned.
\<close>

fun buffers_loop ::
  "(nat \<Rightarrow> bool) \<Rightarrow> bytes \<Rightarrow> bytes list \<Rightarrow> (str \<rightharpoonup> bytes) \<Rightarrow> py_error + (str \<rightharpoonup> bytes)" where
  "buffers_loop up data [] buffer_texts = Inr buffer_texts"
| "buffers_loop up data (bid # bids) buffer_texts =
     (case extract_one up data bid of
        Inl e \<Rightarrow> Inl e
      | Inr text \<Rightarrow>
          (case utf8_decode Strict bid of
             Inl e \<Rightarrow> Inl e
           | Inr key \<Rightarrow> buffers_loop up data bids (buffer_texts(key \<mapsto> text))))"

definition extract_buffers_by_id :: "(nat \<Rightarrow> bool) \<Rightarrow> bytes \<Rightarrow> py_error + (str \<rightharpoonup> bytes)" where
  "extract_buffers_by_id up data =
     buffers_loop up data (remdups (re_findall_ids data)) Map.empty"

section \<open>cli.py: the aggregation loop of main\<close>

record aggregate =
  all_buffers :: "str \<rightharpoonup> bytes"
  all_grammars :: "str \<rightharpoonup> str"

text \<open>
  \<open>if content or bid not in all_buffers: all_buffers[bid] = content\<close>, for one item of
  \<open>buffers\<close>.
\<close>

definition merge_item :: "str \<Rightarrow> bytes \<Rightarrow> (str \<rightharpoonup> bytes) \<Rightarrow> (str \<rightharpoonup> bytes)" where
  "merge_item bid content running =
     (if content \<noteq> [] \<or> bid \<notin> dom running then running(bid \<mapsto> content) else running)"

text \<open>The loop over \<open>buffers.items()\<close>, on the items in the order of the dict.\<close>

definition items_loop :: "(str \<times> bytes) list \<Rightarrow> (str \<rightharpoonup> bytes) \<Rightarrow> (str \<rightharpoonup> bytes)" where
  "items_loop items running = fold (\<lambda>(bid, content). merge_item bid content) items running"

text \<open>
  The keys of a dict are distinct and an item touches its own key only, so the loop acts
  on every key of \<open>buffers\<close> by \<open>merge_item\<close>, whatever the order of the items
  (\<open>items_loop_pointwise\<close> below). With the dict as a map, this is the loop.
\<close>

definition merge_buffers :: "(str \<rightharpoonup> bytes) \<Rightarrow> (str \<rightharpoonup> bytes) \<Rightarrow> (str \<rightharpoonup> bytes)" where
  "merge_buffers buffers running =
     (\<lambda>bid. case buffers bid of
              None \<Rightarrow> running bid
            | Some content \<Rightarrow> merge_item bid content running bid)"

text \<open>
  The loop over the files. \<open>None\<close> is a file whose \<open>read_bytes\<close> raised: it is skipped.
  \<open>all_grammars.update(grammars)\<close> is the map addition.
\<close>

fun scan_files :: "(nat \<Rightarrow> bool) \<Rightarrow> bytes option list \<Rightarrow> aggregate \<Rightarrow> py_error + aggregate" where
  "scan_files up [] agg = Inr agg"
| "scan_files up (None # files) agg = scan_files up files agg"
| "scan_files up (Some data # files) agg =
     (case extract_buffers_by_id up data of
        Inl e \<Rightarrow> Inl e
      | Inr buffers \<Rightarrow>
          (case extract_buffer_grammars data of
             Inl e \<Rightarrow> Inl e
           | Inr grammars \<Rightarrow>
               scan_files up files
                 \<lparr>all_buffers = merge_buffers buffers (all_buffers agg),
                  all_grammars = all_grammars agg ++ grammars\<rparr>))"

text \<open>Merging per-file text maps in order, as the loop does with each file's result.\<close>

definition merge_all :: "(str \<rightharpoonup> bytes) list \<Rightarrow> (str \<rightharpoonup> bytes) \<Rightarrow> (str \<rightharpoonup> bytes)" where
  "merge_all results running = fold merge_buffers results running"

section \<open>Reference definitions\<close>

text \<open>
  The length decoder as the specification words it: \<open>(0, 0)\<close> when the offset is out of
  bounds; the byte itself and 1 when its high bit is clear; \<open>(0, 0)\<close> when the high bit is
  set and there is no second byte; otherwise the low seven bits of the first byte joined
  with the second byte shifted left by seven, and 2.
\<close>

definition varint_reference :: "bytes \<Rightarrow> int \<Rightarrow> int \<times> int" where
  "varint_reference data offset =
     (if offset < 0 \<or> int (length data) \<le> offset then (0, 0)
      else if (of_char (data ! nat offset) :: int) < 128 then (of_char (data ! nat offset), 1)
      else if int (length data) \<le> offset + 1 then (0, 0)
      else (((of_char (data ! nat offset)) AND 0x7F)
              OR (push_bit 7 (of_char (data ! nat (offset + 1)))), 2))"

text \<open>
  The classifier as the specification words it: the text has at least 10 characters, and
  the first 200 characters of its first line contain one of the four marker substrings.
\<close>

definition internal_reference :: "str \<Rightarrow> bool" where
  "internal_reference text =
     (10 \<le> length text \<and>
      (\<exists>marker pre post.
         (marker = str_of ''deserializer'' \<or> marker = str_of ''Workspace''
          \<or> marker = str_of ''packagesWithActiveGrammars'' \<or> marker = str_of ''destroyedItemURIs'')
         \<and> take 200 (takeWhile (\<lambda>c. c \<noteq> 0x0A) text) = pre @ marker @ post))"

text \<open>The per-file text maps of the files that could be read, in the order of the scan.\<close>

definition file_texts :: "(nat \<Rightarrow> bool) \<Rightarrow> bytes option list \<Rightarrow> (str \<rightharpoonup> bytes) list" where
  "file_texts up files =
     concat (map (\<lambda>f. case f of
                         None \<Rightarrow> []
                       | Some data \<Rightarrow>
                           (case extract_buffers_by_id up data of Inl e \<Rightarrow> [] | Inr buffers \<Rightarrow> [buffers]))
               files)"

text \<open>
  The non-empty texts that a sequence of per-file results yields for an identifier, in
  the order of the files.
\<close>

definition nonempty_texts :: "str \<Rightarrow> (str \<rightharpoonup> bytes) list \<Rightarrow> bytes list" where
  "nonempty_texts bid results =
     concat (map (\<lambda>r. case r bid of None \<Rightarrow> [] | Some t \<Rightarrow> (if t \<noteq> [] then [t] else [])) results)"

text \<open>Example storage files for one identifier.\<close>

definition example_id :: bytes where
  "example_id = ''0123456789abcdef0123456789abcdef''"

text \<open>Two files that record the texts \<open>a\<close> and \<open>b\<close> for the identifier.\<close>

definition example_file_a :: bytes where
  "example_file_a =
     ''id'' @ [quote] @ ''  '' @ example_id @ [quote] @ ''text'' @ [quote, CHR 0x01] @ ''a''"

definition example_file_b :: bytes where
  "example_file_b =
     ''id'' @ [quote] @ ''  '' @ example_id @ [quote] @ ''text'' @ [quote, CHR 0x01] @ ''b''"


text \<open>Two files that tag the identifier with a grammar each.\<close>

definition example_file_python :: bytes where
  "example_file_python = example_id @ [quote, CHR 0x01] @ ''source.python''"

definition example_file_ruby :: bytes where
  "example_file_ruby = example_id @ [quote, CHR 0x01] @ ''source.ruby''"

text \<open>Bytes that are all ASCII: \<open>decode()\<close> gives the same characters.\<close>

definition is_ascii :: "bytes \<Rightarrow> bool" where
  "is_ascii bs = list_all (\<lambda>c. (of_char c :: nat) < 128) bs"

section \<open>The length decoder\<close>

text \<open>
  Claim C2, amended. For every byte buffer and every offset that is not negative,
  \<open>decode_varint_length\<close> returns what the reference definition gives; on the bytes
  \<open>0x83 0x01\<close> at offset 0 it returns \<open>(131, 2)\<close>. (The offset is a Python \<open>int\<close>: a
  negative one indexes from the end of the buffer, and below \<open>-len(data)\<close> the read
  raises \<open>IndexError\<close>, so "every offset" does not hold.)
\<close>

theorem decode_varint_length_reference:
  "(0 \<le> offset \<longrightarrow> decode_varint_length data offset = Inr (varint_reference data offset))
   \<and> decode_varint_length [CHR 0x83, CHR 0x01] 0 = Inr (131, 2)"
proof
  show "0 \<le> offset \<longrightarrow> decode_varint_length data offset = Inr (varint_reference data offset)"
  proof
    assume nonneg: "0 \<le> offset"
    show "decode_varint_length data offset = Inr (varint_reference data offset)"
    proof (cases "int (length data) \<le> offset")
      case True
      then show ?thesis
        by (simp add: decode_varint_length_def varint_reference_def)
    next
      case False
      with nonneg have first: "getitem data offset = Inr (of_char (data ! nat offset))"
        by (simp add: getitem_def)
      show ?thesis
      proof (cases "int (length data) \<le> offset + 1")
        case True
        with False nonneg first show ?thesis
          by (simp add: decode_varint_length_def varint_reference_def)
      next
        case False
        with nonneg
        have "getitem data (offset + 1) = Inr (of_char (data ! nat (offset + 1)))"
          by (simp add: getitem_def)
        with False \<open>\<not> int (length data) \<le> offset\<close> nonneg first show ?thesis
          by (simp add: decode_varint_length_def varint_reference_def)
      qed
    qed
  qed
next
  show "decode_varint_length [CHR 0x83, CHR 0x01] 0 = Inr (131, 2)"
    by (simp add: decode_varint_length_def getitem_def)
qed

theorem decode_varint_length_reference_witness:
  "(0::int) \<le> 1 \<and> decode_varint_length [CHR 0x7F, CHR 0xC8, CHR 0x01] 1 = Inr (200, 2)
   \<and> varint_reference [CHR 0x7F, CHR 0xC8, CHR 0x01] 1 = (200, 2)"
  using decode_varint_length_reference [of 1 "[CHR 0x7F, CHR 0xC8, CHR 0x01]"]
  by (simp add: varint_reference_def)

theorem decode_varint_length_negative_offset:
  "decode_varint_length [CHR 0x05] (- 2) = Inl IndexError
   \<and> varint_reference [CHR 0x05] (- 2) = (0, 0)"
  by (simp add: decode_varint_length_def getitem_def varint_reference_def)

section \<open>The internal-buffer classifier\<close>

lemma contains_sublist: "contains needle hay = sublist needle hay"
  by (induction hay) (simp_all add: sublist_Cons_right)

lemma contains_iff: "contains needle hay = (\<exists>pre post. hay = pre @ needle @ post)"
  by (simp add: contains_sublist sublist_def)

lemma py_split_first:
  "\<exists>rest. py_split sep s = takeWhile (\<lambda>c. c \<noteq> sep) s # rest"
  by (induction s) (auto split: list.splits)

lemma slice_from_start: "slice xs 0 n = take n xs"
  by (simp add: slice_def)

text \<open>
  Claim C8. For every string, \<open>is_internal_buffer\<close> returns true if and only if the text
  has at least 10 characters and the first 200 characters of its first line (the text up
  to its first newline character) contain one of \<open>deserializer\<close>, \<open>Workspace\<close>,
  \<open>packagesWithActiveGrammars\<close>, \<open>destroyedItemURIs\<close>; a text shorter than 10 characters is
  never classified internal.
\<close>

theorem is_internal_buffer_reference:
  "is_internal_buffer text = Inr (internal_reference text)
   \<and> (length text < 10 \<longrightarrow> is_internal_buffer text = Inr False)"
proof -
  obtain rest where split: "py_split 0x0A text = takeWhile (\<lambda>c. c \<noteq> 0x0A) text # rest"
    using py_split_first by blast
  have short: "length text < 10 \<Longrightarrow> is_internal_buffer text = Inr False"
    by (simp add: is_internal_buffer_def)
  have "is_internal_buffer text = Inr (internal_reference text)"
  proof (cases "length text < 10")
    case True
    then show ?thesis
      by (simp add: short internal_reference_def)
  next
    case False
    then have "text \<noteq> []" by auto
    with False split
    have "is_internal_buffer text =
            Inr (list_ex (\<lambda>marker. \<exists>pre post.
                    take 200 (takeWhile (\<lambda>c. c \<noteq> 0x0A) text) = pre @ marker @ post)
                  internal_markers)"
      by (simp add: is_internal_buffer_def slice_from_start contains_iff Let_def)
    also have "\<dots> = Inr (internal_reference text)"
      using False unfolding internal_reference_def internal_markers_def
      by auto
    finally show ?thesis .
  qed
  with short show ?thesis by blast
qed


theorem is_internal_buffer_reference_witness:
  "length (str_of ''short'') < 10
   \<and> is_internal_buffer (str_of ''short'') = Inr False
   \<and> is_internal_buffer (str_of ''SELECT * FROM users;'') = Inr False
   \<and> internal_reference (str_of (''{'' @ [quote] @ ''deserializer'' @ [quote] @ '':'' @ [quote] @ ''Workspace'' @ [quote] @ ''}''))"
proof -
  let ?w = "str_of (''{'' @ [quote] @ ''deserializer'' @ [quote] @ '':'' @ [quote] @ ''Workspace'' @ [quote] @ ''}'')"
  have short: "length (str_of ''short'') < 10"
    by (simp add: str_of_def)
  have sel: "is_internal_buffer (str_of ''SELECT * FROM users;'') = Inr False"
    by code_simp
  have "is_internal_buffer ?w = Inr True"
    by code_simp
  with is_internal_buffer_reference [of ?w] have w: "internal_reference ?w"
    by simp
  from is_internal_buffer_reference [of "str_of ''short''"] short
  have "is_internal_buffer (str_of ''short'') = Inr False"
    by blast
  with short sel w show ?thesis by blast
qed

section \<open>The text normalizer\<close>

lemma utf8_decode_values_lossy:
  "eh \<noteq> Strict \<Longrightarrow> \<exists>s. utf8_decode_values eh bs = Inr s"
  by (induction eh bs rule: utf8_decode_values.induct)
    (auto simp del: utf8_decode_one.simps split: utf8_step.splits errors.splits sum.splits)

lemma utf8_decode_replace_total: "\<exists>s. utf8_decode Replace blob = Inr s"
  by (simp add: utf8_decode_def utf8_decode_values_lossy)

lemma set_py_strip: "set (py_strip s) \<subseteq> set s"
proof -
  have "set (py_strip s) = set (dropWhile isspace (rev (dropWhile isspace s)))"
    by (simp add: py_strip_def)
  also have "\<dots> \<subseteq> set (rev (dropWhile isspace s))"
    by (meson set_dropWhileD subsetI)
  also have "\<dots> = set (dropWhile isspace s)"
    by simp
  also have "\<dots> \<subseteq> set s"
    by (meson set_dropWhileD subsetI)
  finally show ?thesis .
qed

lemma last_dropWhile: "dropWhile P xs \<noteq> [] \<Longrightarrow> last (dropWhile P xs) = last xs"
  by (induction xs) (auto split: if_splits)

lemma py_strip_ends:
  assumes "py_strip s \<noteq> []"
  shows "\<not> isspace (hd (py_strip s))" and "\<not> isspace (last (py_strip s))"
proof -
  let ?u = "dropWhile isspace s"
  let ?v = "dropWhile isspace (rev ?u)"
  from assms have v: "?v \<noteq> []" by (simp add: py_strip_def)
  have u: "?u \<noteq> []"
  proof
    assume "?u = []"
    with v show False by simp
  qed
  have "last (py_strip s) = hd ?v"
    using v by (simp add: py_strip_def last_rev)
  with v show "\<not> isspace (last (py_strip s))"
    by (simp add: hd_dropWhile)
  have "hd (py_strip s) = last ?v"
    using v by (simp add: py_strip_def hd_rev)
  also have "\<dots> = last (rev ?u)" using v by (rule last_dropWhile)
  also have "\<dots> = hd ?u" using u by (simp add: last_rev)
  finally show "\<not> isspace (hd (py_strip s))"
    using u by (simp add: hd_dropWhile)
qed

text \<open>
  Claim C7. For every byte sequence, \<open>normalize_text\<close> returns a string; each of its
  characters is printable or a newline, tab or carriage return; and it neither starts
  nor ends with whitespace.
\<close>

theorem normalize_text_clean:
  "\<exists>s. normalize_text up blob = Inr s
     \<and> (\<forall>c \<in> set s. isprintable up c \<or> c = 0x0A \<or> c = 0x09 \<or> c = 0x0D)
     \<and> (s \<noteq> [] \<longrightarrow> \<not> isspace (hd s) \<and> \<not> isspace (last s))"
proof -
  obtain decoded where d: "utf8_decode Replace blob = Inr decoded"
    using utf8_decode_replace_total by blast
  let ?s = "py_strip (keep_printable up decoded)"
  from d have "normalize_text up blob = Inr ?s"
    by (simp add: normalize_text_def)
  moreover have "\<forall>c \<in> set ?s. isprintable up c \<or> c = 0x0A \<or> c = 0x09 \<or> c = 0x0D"
    using set_py_strip [of "keep_printable up decoded"]
    by (auto simp: keep_printable_def)
  moreover have "?s \<noteq> [] \<longrightarrow> \<not> isspace (hd ?s) \<and> \<not> isspace (last ?s)"
    using py_strip_ends by blast
  ultimately show ?thesis by blast
qed

theorem normalize_text_clean_witness:
  "normalize_text (\<lambda>c. False)
     (''  Hello'' @ [CHR 0x00, CHR 0xE9] @ ''World'' @ [CHR 0x0A] @ ''New'' @ [CHR 0x09]
        @ ''Line'' @ [CHR 0x0D, CHR 0x0A])
     = Inr (str_of (''HelloWorld'' @ [CHR 0x0A] @ ''New'' @ [CHR 0x09] @ ''Line''))
   \<and> str_of (''HelloWorld'' @ [CHR 0x0A] @ ''New'' @ [CHR 0x09] @ ''Line'') \<noteq> []
   \<and> 0x0A \<in> set (str_of (''HelloWorld'' @ [CHR 0x0A] @ ''New'' @ [CHR 0x09] @ ''Line''))
   \<and> \<not> isspace (hd (str_of (''HelloWorld'' @ [CHR 0x0A] @ ''New'' @ [CHR 0x09] @ ''Line'')))
   \<and> \<not> isspace (last (str_of (''HelloWorld'' @ [CHR 0x0A] @ ''New'' @ [CHR 0x09] @ ''Line'')))"
proof -
  let ?blob = "''  Hello'' @ [CHR 0x00, CHR 0xE9] @ ''World'' @ [CHR 0x0A] @ ''New''
                 @ [CHR 0x09] @ ''Line'' @ [CHR 0x0D, CHR 0x0A]"
  let ?out = "str_of (''HelloWorld'' @ [CHR 0x0A] @ ''New'' @ [CHR 0x09] @ ''Line'')"
  have run: "normalize_text (\<lambda>c. False) ?blob = Inr ?out"
    by (simp add: normalize_text_def utf8_decode_def is_continuation_def keep_printable_def
          isprintable_def py_strip_def isspace_def str_of_def)
  have nonempty: "?out \<noteq> []" and newline: "0x0A \<in> set ?out"
    by (simp_all add: str_of_def)
  from normalize_text_clean [of "\<lambda>c. False" ?blob] run nonempty
  have "\<not> isspace (hd ?out) \<and> \<not> isspace (last ?out)"
    by simp
  with run nonempty newline show ?thesis by blast
qed

text \<open>
  Claim C10. Decoding as UTF-8 with \<open>errors="replace"\<close> never raises, so the handler
  with the latin-1 decoding is never entered: for every input \<open>normalize_text\<close> is the
  UTF-8 decoding with replacement, filtered and stripped.
\<close>

theorem normalize_text_single_path:
  "\<exists>decoded. utf8_decode Replace blob = Inr decoded
     \<and> normalize_text up blob = Inr (py_strip (keep_printable up decoded))"
proof -
  obtain decoded where d: "utf8_decode Replace blob = Inr decoded"
    using utf8_decode_replace_total by blast
  then have "normalize_text up blob = Inr (py_strip (keep_printable up decoded))"
    by (simp add: normalize_text_def)
  with d show ?thesis by blast
qed

section \<open>Evaluation\<close>

text \<open>Equations that let the simplifier run the model on concrete bytes.\<close>

lemma greedy_upto_numeral:
  "greedy_upto (numeral k) cls f [] = None"
  "greedy_upto (numeral k) cls f (c # cs) =
     (if cls c
      then (case greedy_upto (pred_numeral k) cls f cs of Some r \<Rightarrow> Some r | None \<Rightarrow> f cs)
      else None)"
  by (simp_all add: numeral_eq_Suc)

lemmas eval_defs = match_id_def hex32_quote_def quote_def is_space_byte_def is_hex_lower_def
  match_id_literal_def extract_buffers_by_id_def extract_one_def extract_window_def
  search_window_def text_marker_def slice_def decode_varint_length_def getitem_def
  clean_payload_def utf8_decode_def is_continuation_def keep_printable_def isprintable_def
  py_strip_def isspace_def utf8_encode_one_def str_of_def Let_def char_of_def bit_Suc_0_iff
  extract_buffer_grammars_def match_grammar_def is_ctrl_or_space_def is_grammar_char_def
  grammar_tag_def greedy_upto_numeral

section \<open>The text merge of the aggregation loop\<close>

lemma merge_item_other: "k \<noteq> bid \<Longrightarrow> merge_item bid content running k = running k"
  by (simp add: merge_item_def)

lemma items_loop_other:
  "k \<notin> fst ` set items \<Longrightarrow> items_loop items running k = running k"
  unfolding items_loop_def
  by (induction items arbitrary: running) (auto simp: merge_item_other)

lemma items_loop_pointwise:
  "distinct (map fst items) \<Longrightarrow>
   items_loop items running = merge_buffers (map_of items) running"
proof (induction items arbitrary: running)
  case Nil
  show ?case by (simp add: items_loop_def merge_buffers_def)
next
  case (Cons item items)
  obtain bid content where item: "item = (bid, content)" by (cases item)
  from Cons.prems item have notin: "bid \<notin> fst ` set items" and d: "distinct (map fst items)"
    by auto
  have step: "items_loop ((bid, content) # items) running
                = items_loop items (merge_item bid content running)"
    by (simp add: items_loop_def)
  show ?case
  proof (rule ext)
    fix k
    show "items_loop (item # items) running k = merge_buffers (map_of (item # items)) running k"
    proof (cases "k = bid")
      case True
      with notin have "items_loop items (merge_item bid content running) k
                         = merge_item bid content running k"
        by (simp add: items_loop_other)
      with True show ?thesis
        by (simp add: step item merge_buffers_def)
    next
      case False
      have "items_loop items (merge_item bid content running) k
              = merge_buffers (map_of items) (merge_item bid content running) k"
        by (simp add: Cons.IH [OF d])
      also have "\<dots> = merge_buffers (map_of items) running k"
        using False by (simp add: merge_buffers_def merge_item_def dom_def split: option.splits)
      finally show ?thesis
        using False by (simp add: step item merge_buffers_def)
    qed
  qed
qed

lemma merge_buffers_apply:
  "merge_buffers buffers running bid =
     (case buffers bid of
        None \<Rightarrow> running bid
      | Some content \<Rightarrow> (if content \<noteq> [] \<or> running bid = None then Some content else running bid))"
  by (simp add: merge_buffers_def merge_item_def dom_def split: option.splits)

lemma merge_all_Nil: "merge_all [] running = running"
  by (simp add: merge_all_def)

lemma merge_all_Cons: "merge_all (r # results) running = merge_all results (merge_buffers r running)"
  by (simp add: merge_all_def)

lemma merge_all_nonempty:
  "running bid = Some v \<Longrightarrow> v \<noteq> [] \<Longrightarrow>
   merge_all results running bid = Some (last (v # nonempty_texts bid results))"
proof (induction results arbitrary: running v)
  case Nil
  then show ?case by (simp add: merge_all_Nil nonempty_texts_def)
next
  case (Cons r results)
  show ?case
  proof (cases "r bid")
    case None
    with Cons.prems have "merge_buffers r running bid = Some v"
      by (simp add: merge_buffers_apply)
    with Cons.IH [of "merge_buffers r running" v] Cons.prems(2) None show ?thesis
      by (simp add: merge_all_Cons nonempty_texts_def)
  next
    case (Some t)
    show ?thesis
    proof (cases "t = []")
      case True
      with Some Cons.prems have "merge_buffers r running bid = Some v"
        by (simp add: merge_buffers_apply)
      with Cons.IH [of "merge_buffers r running" v] Cons.prems(2) Some True show ?thesis
        by (simp add: merge_all_Cons nonempty_texts_def)
    next
      case False
      with Some have "merge_buffers r running bid = Some t"
        by (simp add: merge_buffers_apply)
      with Cons.IH [of "merge_buffers r running" t] Some False show ?thesis
        by (simp add: merge_all_Cons nonempty_texts_def)
    qed
  qed
qed

lemma nonempty_texts_nonempty: "t \<in> set (nonempty_texts bid results) \<Longrightarrow> t \<noteq> []"
  by (auto simp: nonempty_texts_def split: option.splits if_splits)

lemma nonempty_texts_none:
  "\<forall>r \<in> set results. r bid = None \<or> r bid = Some [] \<Longrightarrow> nonempty_texts bid results = []"
  by (induction results) (auto simp: nonempty_texts_def)

text \<open>
  The final text of an identifier after any sequence of per-file maps, from any running
  map: the last non-empty text if a file yields one; otherwise the running value if the
  identifier is present; otherwise empty if a file yields the identifier, and absent if
  none does. It depends on the order of the files only through which non-empty text
  comes last.
\<close>

lemma nonempty_texts_Nil: "nonempty_texts bid [] = []"
  by (simp add: nonempty_texts_def)

lemma nonempty_texts_Cons:
  "nonempty_texts bid (r # rs) =
     (case r bid of None \<Rightarrow> [] | Some t \<Rightarrow> (if t \<noteq> [] then [t] else [])) @ nonempty_texts bid rs"
  by (simp add: nonempty_texts_def)

lemma merge_all_general:
  "merge_all results running bid =
     (if nonempty_texts bid results \<noteq> [] then Some (last (nonempty_texts bid results))
      else if running bid \<noteq> None then running bid
      else if (\<exists>r \<in> set results. r bid \<noteq> None) then Some []
      else None)"
proof (induction results arbitrary: running)
  case Nil
  show ?case by (simp add: merge_all_Nil nonempty_texts_def)
next
  case (Cons r rs)
  note ih = Cons.IH [of "merge_buffers r running"]
  show ?case
  proof (cases "r bid")
    case None
    then have "merge_buffers r running bid = running bid"
      by (simp add: merge_buffers_apply)
    with ih None show ?thesis
      by (simp add: merge_all_Cons nonempty_texts_Cons)
  next
    case (Some t)
    show ?thesis
    proof (cases "t = []")
      case True
      with Some have "merge_buffers r running bid
                        = (if running bid = None then Some [] else running bid)"
        by (simp add: merge_buffers_apply)
      with ih Some True show ?thesis
        by (auto simp: merge_all_Cons nonempty_texts_Cons)
    next
      case False
      with Some have "merge_buffers r running bid = Some t"
        by (simp add: merge_buffers_apply)
      with ih Some False show ?thesis
        by (simp add: merge_all_Cons nonempty_texts_Cons)
    qed
  qed
qed

lemma set_nonempty_texts:
  "set (nonempty_texts bid results) = {t. t \<noteq> [] \<and> (\<exists>r \<in> set results. r bid = Some t)}"
  by (induction results) (auto simp: nonempty_texts_Nil nonempty_texts_Cons split: option.splits)

lemma merge_all_order:
  assumes same: "set results' = set results"
    and one: "\<forall>t \<in> set (nonempty_texts bid results). \<forall>t' \<in> set (nonempty_texts bid results). t = t'"
  shows "merge_all results' running bid = merge_all results running bid"
proof -
  let ?ne = "nonempty_texts bid results" and ?ne' = "nonempty_texts bid results'"
  from same have sets: "set ?ne' = set ?ne"
    by (simp add: set_nonempty_texts)
  then have empty: "?ne' = [] \<longleftrightarrow> ?ne = []"
    by (metis set_empty)
  have "last ?ne' = last ?ne" if "?ne \<noteq> []"
  proof -
    from that empty have "last ?ne' \<in> set ?ne'" and "last ?ne \<in> set ?ne"
      by simp_all
    with sets one show ?thesis by auto
  qed
  with empty same show ?thesis
    by (simp add: merge_all_general)
qed


text \<open>
  Claim C1, amended. An identifier's running text is overwritten when the incoming text
  is not empty or the identifier is absent. For every sequence of per-file maps merged in
  order, from any running map (the empty one of the program included), the final text is
  the last non-empty text in processing order if a file yields one. Once the running
  value of an identifier is not empty it stays not empty: a later file's empty or missing
  result never changes it, and a later file's non-empty result replaces it. Processing
  order can change the final text only when the files yield two different non-empty
  texts for the identifier: when they do not, every permutation of the files gives the
  same final text.
\<close>

theorem text_merge_keeps_nonempty:
  "(\<forall>buffers content r. buffers bid = Some content \<longrightarrow>
      merge_buffers buffers r bid
        = (if content \<noteq> [] \<or> r bid = None then Some content else r bid))
   \<and> merge_all results running bid =
       (if nonempty_texts bid results \<noteq> [] then Some (last (nonempty_texts bid results))
        else if running bid \<noteq> None then running bid
        else if (\<exists>r \<in> set results. r bid \<noteq> None) then Some []
        else None)
   \<and> (\<forall>v. running bid = Some v \<and> v \<noteq> [] \<longrightarrow>
         merge_all results running bid = Some (last (v # nonempty_texts bid results))
         \<and> last (v # nonempty_texts bid results) \<noteq> []
         \<and> ((\<forall>r \<in> set results. r bid = None \<or> r bid = Some [])
              \<longrightarrow> merge_all results running bid = Some v))
   \<and> (\<forall>t. t \<noteq> [] \<longrightarrow> merge_all (results @ [[bid \<mapsto> t]]) running bid = Some t)
   \<and> (\<forall>results'. mset results' = mset results
         \<and> (\<forall>t \<in> set (nonempty_texts bid results).
               \<forall>t' \<in> set (nonempty_texts bid results). t = t')
         \<longrightarrow> merge_all results' running bid = merge_all results running bid)"
proof -
  have step: "\<forall>buffers content r. buffers bid = Some content \<longrightarrow>
                merge_buffers buffers r bid
                  = (if content \<noteq> [] \<or> r bid = None then Some content else r bid)"
    by (simp add: merge_buffers_apply)
  have closed: "merge_all results running bid =
       (if nonempty_texts bid results \<noteq> [] then Some (last (nonempty_texts bid results))
        else if running bid \<noteq> None then running bid
        else if (\<exists>r \<in> set results. r bid \<noteq> None) then Some []
        else None)"
    by (rule merge_all_general)
  have kept: "merge_all results running bid = Some (last (v # nonempty_texts bid results))
              \<and> last (v # nonempty_texts bid results) \<noteq> []
              \<and> ((\<forall>r \<in> set results. r bid = None \<or> r bid = Some [])
                   \<longrightarrow> merge_all results running bid = Some v)"
    if "running bid = Some v \<and> v \<noteq> []" for v
  proof -
    from that have r: "running bid = Some v" and v: "v \<noteq> []" by simp_all
    from r v have final: "merge_all results running bid = Some (last (v # nonempty_texts bid results))"
      by (rule merge_all_nonempty)
    have "last (v # nonempty_texts bid results) \<in> set (v # nonempty_texts bid results)"
      by (rule last_in_set) simp
    with v have "last (v # nonempty_texts bid results) \<noteq> []"
      by (auto dest: nonempty_texts_nonempty)
    moreover have "(\<forall>r \<in> set results. r bid = None \<or> r bid = Some [])
                     \<longrightarrow> merge_all results running bid = Some v"
      by (simp add: final nonempty_texts_none)
    ultimately show ?thesis using final by blast
  qed
  have replaced: "\<forall>t. t \<noteq> [] \<longrightarrow> merge_all (results @ [[bid \<mapsto> t]]) running bid = Some t"
    by (simp add: merge_all_general nonempty_texts_def)
  have order: "merge_all results' running bid = merge_all results running bid"
    if "mset results' = mset results
        \<and> (\<forall>t \<in> set (nonempty_texts bid results).
              \<forall>t' \<in> set (nonempty_texts bid results). t = t')" for results'
  proof -
    from that have "set results' = set results"
      by (metis mset_eq_setD)
    moreover from that
    have "\<forall>t \<in> set (nonempty_texts bid results). \<forall>t' \<in> set (nonempty_texts bid results). t = t'"
      by blast
    ultimately show ?thesis by (rule merge_all_order)
  qed
  from step closed kept replaced order show ?thesis by blast
qed

theorem text_merge_keeps_nonempty_witness:
  "[str_of ''x'' \<mapsto> ''a''] (str_of ''x'') = Some ''a'' \<and> ''a'' \<noteq> []
   \<and> merge_buffers [str_of ''x'' \<mapsto> ''b''] [str_of ''x'' \<mapsto> ''a''] (str_of ''x'') = Some ''b''
   \<and> merge_all [[str_of ''x'' \<mapsto> []], Map.empty] [str_of ''x'' \<mapsto> ''a''] (str_of ''x'')
       = Some ''a''
   \<and> merge_all ([[str_of ''x'' \<mapsto> []], Map.empty] @ [[str_of ''x'' \<mapsto> ''b'']])
        [str_of ''x'' \<mapsto> ''a''] (str_of ''x'') = Some ''b''
   \<and> mset [[str_of ''x'' \<mapsto> ''hello''], [str_of ''x'' \<mapsto> []]]
       = mset [[str_of ''x'' \<mapsto> []], [str_of ''x'' \<mapsto> ''hello'']]
   \<and> merge_all [[str_of ''x'' \<mapsto> ''hello''], [str_of ''x'' \<mapsto> []]] Map.empty (str_of ''x'')
       = merge_all [[str_of ''x'' \<mapsto> []], [str_of ''x'' \<mapsto> ''hello'']] Map.empty (str_of ''x'')
   \<and> merge_all [[str_of ''x'' \<mapsto> []], [str_of ''x'' \<mapsto> ''hello'']] Map.empty (str_of ''x'')
       = Some ''hello''"
proof -
  let ?x = "str_of ''x''"
  let ?running = "[?x \<mapsto> ''a'']"
  let ?empties = "[[?x \<mapsto> []], Map.empty] :: (str \<rightharpoonup> bytes) list"
  let ?fwd = "[[?x \<mapsto> []], [?x \<mapsto> ''hello'']] :: (str \<rightharpoonup> bytes) list"
  let ?bwd = "[[?x \<mapsto> ''hello''], [?x \<mapsto> []]] :: (str \<rightharpoonup> bytes) list"
  have r: "?running ?x = Some ''a'' \<and> ''a'' \<noteq> []" by simp
  have b: "[?x \<mapsto> ''b''] ?x = Some ''b''" and nb: "''b'' \<noteq> []" by simp_all
  have empties: "\<forall>r \<in> set ?empties. r ?x = None \<or> r ?x = Some []" by simp
  note first = text_merge_keeps_nonempty [of ?x ?empties ?running]
  from first b have step: "merge_buffers [?x \<mapsto> ''b''] ?running ?x = Some ''b''"
    by simp
  from first r empties have kept: "merge_all ?empties ?running ?x = Some ''a''"
    by blast
  from first nb have replaced: "merge_all (?empties @ [[?x \<mapsto> ''b'']]) ?running ?x = Some ''b''"
    by blast
  have perm: "mset ?bwd = mset ?fwd"
    by (simp add: add_mset_commute)
  have texts: "nonempty_texts ?x ?fwd = [''hello'']"
    by (simp add: nonempty_texts_def)
  then have one: "\<forall>t \<in> set (nonempty_texts ?x ?fwd). \<forall>t' \<in> set (nonempty_texts ?x ?fwd). t = t'"
    by simp
  note second = text_merge_keeps_nonempty [of ?x ?fwd Map.empty]
  from second perm one have order: "merge_all ?bwd Map.empty ?x = merge_all ?fwd Map.empty ?x"
    by blast
  from second texts have final: "merge_all ?fwd Map.empty ?x = Some ''hello''"
    by simp
  from r step kept replaced perm order final show ?thesis by (intro conjI) simp_all
qed

text \<open>
  The running text \<open>a\<close> of an identifier is replaced when a later result yields \<open>b\<close> for
  it. On files: scanning \<open>example_file_a\<close> and then \<open>example_file_b\<close> leaves the text \<open>b\<close>
  for the identifier, the other order leaves \<open>a\<close>, so the order of the files shows in the
  text.
\<close>

theorem text_merge_replaces_nonempty:
  "merge_all [[str_of example_id \<mapsto> ''a'']] Map.empty (str_of example_id) = Some ''a''
   \<and> merge_all [[str_of example_id \<mapsto> ''a''], [str_of example_id \<mapsto> ''b'']] Map.empty
        (str_of example_id) = Some ''b''
   \<and> (case scan_files (\<lambda>c. False) [Some example_file_a]
           \<lparr>all_buffers = Map.empty, all_grammars = Map.empty\<rparr> of
      Inl e \<Rightarrow> False
    | Inr agg \<Rightarrow> all_buffers agg (str_of example_id) = Some ''a'')
   \<and> (case scan_files (\<lambda>c. False) [Some example_file_a, Some example_file_b]
           \<lparr>all_buffers = Map.empty, all_grammars = Map.empty\<rparr> of
      Inl e \<Rightarrow> False
    | Inr agg \<Rightarrow> all_buffers agg (str_of example_id) = Some ''b'')
   \<and> (case scan_files (\<lambda>c. False) [Some example_file_b, Some example_file_a]
           \<lparr>all_buffers = Map.empty, all_grammars = Map.empty\<rparr> of
      Inl e \<Rightarrow> False
    | Inr agg \<Rightarrow> all_buffers agg (str_of example_id) = Some ''a'')"
proof -
  have "merge_all [[str_of example_id \<mapsto> ''a'']] Map.empty (str_of example_id) = Some ''a''"
    and "merge_all [[str_of example_id \<mapsto> ''a''], [str_of example_id \<mapsto> ''b'']] Map.empty
           (str_of example_id) = Some ''b''"
    by (simp_all add: merge_all_def merge_buffers_apply)
  moreover
  have "case scan_files (\<lambda>c. False) [Some example_file_a]
               \<lparr>all_buffers = Map.empty, all_grammars = Map.empty\<rparr> of
          Inl e \<Rightarrow> False
        | Inr agg \<Rightarrow> all_buffers agg (str_of example_id) = Some ''a''"
    by (simp add: example_id_def example_file_a_def eval_defs merge_buffers_def merge_item_def)
  moreover
  have "case scan_files (\<lambda>c. False) [Some example_file_a, Some example_file_b]
               \<lparr>all_buffers = Map.empty, all_grammars = Map.empty\<rparr> of
          Inl e \<Rightarrow> False
        | Inr agg \<Rightarrow> all_buffers agg (str_of example_id) = Some ''b''"
    by (simp add: example_id_def example_file_a_def example_file_b_def eval_defs
          merge_buffers_def merge_item_def)
  moreover
  have "case scan_files (\<lambda>c. False) [Some example_file_b, Some example_file_a]
               \<lparr>all_buffers = Map.empty, all_grammars = Map.empty\<rparr> of
          Inl e \<Rightarrow> False
        | Inr agg \<Rightarrow> all_buffers agg (str_of example_id) = Some ''a''"
    by (simp add: example_id_def example_file_a_def example_file_b_def eval_defs
          merge_buffers_def merge_item_def)
  ultimately show ?thesis by (intro conjI)
qed

text \<open>
  Claim C6. When one file yields the empty text for an identifier and another yields a
  non-empty text \<open>t\<close>, merging the two results in either order leaves \<open>t\<close> for the
  identifier, whatever the running map was before.
\<close>

theorem text_merge_empty_vs_nonempty:
  assumes "a bid = Some []" and "b bid = Some t" and "t \<noteq> []"
  shows "merge_all [a, b] running bid = Some t \<and> merge_all [b, a] running bid = Some t"
  using assms by (simp add: merge_all_def merge_buffers_apply)

theorem text_merge_empty_vs_nonempty_witness:
  "[str_of ''x'' \<mapsto> []] (str_of ''x'') = Some [] \<and> [str_of ''x'' \<mapsto> ''hello''] (str_of ''x'') = Some ''hello''
   \<and> ''hello'' \<noteq> []
   \<and> merge_all [[str_of ''x'' \<mapsto> []], [str_of ''x'' \<mapsto> ''hello'']] Map.empty (str_of ''x'') = Some ''hello''
   \<and> merge_all [[str_of ''x'' \<mapsto> ''hello''], [str_of ''x'' \<mapsto> []]] Map.empty (str_of ''x'') = Some ''hello''"
  using text_merge_empty_vs_nonempty [of "[str_of ''x'' \<mapsto> []]" "str_of ''x''"
      "[str_of ''x'' \<mapsto> ''hello'']" "''hello''" Map.empty]
  by simp

section \<open>The payload extractor\<close>

subsection \<open>Every located identifier is found again\<close>

lemma greedy_plus_suffix:
  "\<forall>r x y. k r = Some (x, y) \<longrightarrow> suffix y r \<Longrightarrow>
   greedy_plus cls k s = Some (g, rest) \<Longrightarrow> suffix rest s"
proof (induction s)
  case Nil
  then show ?case by simp
next
  case (Cons c cs)
  show ?case
  proof (cases "greedy_plus cls k cs")
    case None
    with Cons.prems(2) have "k cs = Some (g, rest)"
      by (simp split: if_splits)
    with Cons.prems(1) have "suffix rest cs" by blast
    then show ?thesis by (rule suffix_ConsI)
  next
    case (Some r)
    with Cons.prems(2) have "greedy_plus cls k cs = Some (g, rest)"
      by (simp split: if_splits)
    with Cons.IH Cons.prems(1) have "suffix rest cs" by blast
    then show ?thesis by (rule suffix_ConsI)
  qed
qed

lemma hex32_quote_suffix: "hex32_quote r = Some (x, y) \<Longrightarrow> suffix y r"
  by (auto simp: hex32_quote_def Let_def suffix_drop split: if_splits)

lemma match_id_suffix:
  assumes "match_id s = Some (g, rest)"
  shows "suffix rest s"
proof -
  from assms have m: "greedy_plus is_space_byte hex32_quote (drop 3 s) = Some (g, rest)"
    by (simp add: match_id_def split: if_splits)
  have "suffix rest (drop 3 s)"
  proof (rule greedy_plus_suffix)
    show "\<forall>r x y. hex32_quote r = Some (x, y) \<longrightarrow> suffix y r"
      by (intro allI impI) (rule hex32_quote_suffix)
    show "greedy_plus is_space_byte hex32_quote (drop 3 s) = Some (g, rest)" by (fact m)
  qed
  then show ?thesis
    by (rule suffix_order.trans) (rule suffix_drop)
qed

lemma hex32_quote_literal:
  assumes "hex32_quote r = Some (g, y)"
  shows "prefix (g @ [quote]) r"
proof -
  from assms have g: "g = take 32 r" and q: "prefix [quote] (drop 32 r)"
    by (auto simp: hex32_quote_def Let_def split: if_splits)
  from q obtain zs where "drop 32 r = [quote] @ zs"
    by (auto simp: prefix_def)
  then have "r = (take 32 r @ [quote]) @ zs"
    by (metis append_take_drop_id append.assoc)
  with g show ?thesis
    by (metis prefixI)
qed

lemma greedy_plus_literal:
  "greedy_plus cls hex32_quote s = Some (g, rest) \<Longrightarrow>
   \<exists>y. greedy_plus cls (\<lambda>r. if prefix (g @ [quote]) r then Some r else None) s = Some y"
proof (induction s)
  case Nil
  then show ?case by simp
next
  case (Cons c cs)
  let ?k = "\<lambda>r. if prefix (g @ [quote]) r then Some r else None"
  from Cons.prems have c: "cls c" by (simp split: if_splits)
  have step: "greedy_plus cls ?k (c # cs) =
                (case greedy_plus cls ?k cs of Some r \<Rightarrow> Some r | None \<Rightarrow> ?k cs)"
    using c by simp
  show ?case
  proof (cases "greedy_plus cls hex32_quote cs")
    case None
    with Cons.prems c have "hex32_quote cs = Some (g, rest)" by simp
    then have "?k cs = Some cs" by (simp add: hex32_quote_literal)
    then show ?thesis
      unfolding step by (cases "greedy_plus cls ?k cs") simp_all
  next
    case (Some r)
    with Cons.prems c have "greedy_plus cls hex32_quote cs = Some (g, rest)" by simp
    then obtain y where "greedy_plus cls ?k cs = Some y"
      using Cons.IH by blast
    then show ?thesis
      unfolding step by simp
  qed
qed

lemma match_id_literal_of_match:
  assumes "match_id s = Some (g, rest)"
  shows "match_id_literal g s"
proof -
  from assms have p: "prefix (''id'' @ [quote]) s"
    and m: "greedy_plus is_space_byte hex32_quote (drop 3 s) = Some (g, rest)"
    by (simp_all add: match_id_def split: if_splits)
  from greedy_plus_literal [OF m] p show ?thesis
    unfolding match_id_literal_def by blast
qed

lemma re_search_id_append:
  "re_search_id bid ys = Some n \<Longrightarrow> \<exists>m. re_search_id bid (xs @ ys) = Some m"
  by (induction xs) auto

lemma re_search_id_suffix:
  assumes "suffix ys zs" and "re_search_id bid ys = Some n"
  shows "\<exists>m. re_search_id bid zs = Some m"
proof -
  from assms(1) obtain xs where "zs = xs @ ys" by (auto simp: suffix_def)
  with re_search_id_append [OF assms(2)] show ?thesis by simp
qed

lemma located_id_found:
  "bid \<in> set (re_findall_ids data) \<Longrightarrow> \<exists>n. re_search_id bid data = Some n"
proof (induction data rule: re_findall_ids.induct)
  case 1
  then show ?case by simp
next
  case (2 c cs)
  show ?case
  proof (cases "match_id (c # cs)")
    case None
    with "2.prems" have "bid \<in> set (re_findall_ids cs)" by simp
    with "2.IH"(1) None obtain n where "re_search_id bid cs = Some n" by blast
    then show ?thesis by simp
  next
    case (Some m)
    obtain g rest where m: "m = (g, rest)" by (cases m)
    with Some "2.prems" have "bid = g \<or> bid \<in> set (re_findall_ids rest)" by simp
    then show ?thesis
    proof
      assume "bid = g"
      with Some m have "match_id_literal bid (c # cs)"
        by (simp add: match_id_literal_of_match)
      then show ?thesis by simp
    next
      assume "bid \<in> set (re_findall_ids rest)"
      with "2.IH"(2) Some m obtain n where n: "re_search_id bid rest = Some n" by blast
      from Some m have "suffix rest (c # cs)"
        by (simp add: match_id_suffix)
      then show ?thesis using n by (rule re_search_id_suffix)
    qed
  qed
qed

text \<open>
  Claim C9. Every identifier that \<open>re.findall\<close> returns for the pattern
  \<open>id"\s+([a-f0-9]{32})"\<close> is found again by the search for that identifier, so the
  loop body goes on to the window search and the assignment of empty bytes for a missing
  match is never reached.
\<close>

theorem located_id_reaches_window:
  assumes "bid \<in> set (re_findall_ids data)"
  shows "\<exists>start_pos. re_search_id bid data = Some start_pos
           \<and> extract_one up data bid = extract_window up data start_pos"
proof -
  from assms obtain start_pos where "re_search_id bid data = Some start_pos"
    using located_id_found by blast
  then show ?thesis by (simp add: extract_one_def)
qed

theorem located_id_reaches_window_witness:
  "example_id \<in> set (re_findall_ids example_file_a)
   \<and> re_search_id example_id example_file_a = Some 0
   \<and> extract_one (\<lambda>c. False) example_file_a example_id
       = extract_window (\<lambda>c. False) example_file_a 0"
proof -
  have mem: "example_id \<in> set (re_findall_ids example_file_a)"
    by (simp add: example_id_def example_file_a_def eval_defs)
  have start: "re_search_id example_id example_file_a = Some 0"
    by (simp add: example_id_def example_file_a_def eval_defs)
  from located_id_reaches_window [OF mem, of "\<lambda>c. False"] start mem
  show ?thesis by simp
qed

subsection \<open>Length prefix and payload\<close>

lemma of_char_nonneg: "(0::int) \<le> of_char c"
  by (metis of_nat_of_char of_nat_0_le_iff)

lemma decode_varint_length_total:
  assumes "0 \<le> offset"
  shows "\<exists>text_length bytes_consumed.
           decode_varint_length data offset = Inr (text_length, bytes_consumed)
           \<and> (bytes_consumed = 0 \<or> bytes_consumed = 1 \<or> bytes_consumed = 2)
           \<and> 0 \<le> text_length"
proof (cases "int (length data) \<le> offset")
  case True
  then show ?thesis by (simp add: decode_varint_length_def)
next
  case False
  with assms have first: "getitem data offset = Inr (of_char (data ! nat offset))"
    by (simp add: getitem_def)
  show ?thesis
  proof (cases "int (length data) \<le> offset + 1")
    case True
    with False first show ?thesis
      by (simp add: decode_varint_length_def of_char_nonneg)
  next
    case False
    with assms have "getitem data (offset + 1) = Inr (of_char (data ! nat (offset + 1)))"
      by (simp add: getitem_def)
    with False \<open>\<not> int (length data) \<le> offset\<close> first show ?thesis
      by (simp add: decode_varint_length_def of_char_nonneg)
  qed
qed

lemma decode_varint_length_past_end:
  "int (length data) \<le> offset \<Longrightarrow> decode_varint_length data offset = Inr (0, 0)"
  by (simp add: decode_varint_length_def)



lemma extract_window_cases:
  assumes found: "find_bytes (search_window data start_pos) text_marker = Some text_pos"
    and lo: "text_pos + length text_marker = length_offset"
    and dec: "decode_varint_length (search_window data start_pos) (int length_offset)
                = Inr (text_length, bytes_consumed)"
  shows "extract_window up data start_pos =
           (if text_length = 0 \<or> text_length > 10000
               \<or> int length_offset + bytes_consumed + text_length
                    > int (length (search_window data start_pos))
            then Inr []
            else Inr (clean_payload up
                   (slice (search_window data start_pos)
                      (nat (int length_offset + bytes_consumed))
                      (nat (int length_offset + bytes_consumed + text_length)))))"
proof (cases "length_offset \<ge> length (search_window data start_pos)")
  case True
  then have "decode_varint_length (search_window data start_pos) (int length_offset) = Inr (0, 0)"
    by (simp add: decode_varint_length_past_end)
  with dec have "text_length = 0" by simp
  moreover from True found lo have "extract_window up data start_pos = Inr []"
    by (simp add: extract_window_def Let_def)
  ultimately show ?thesis by simp
next
  case False
  with found lo dec show ?thesis
    by (simp add: extract_window_def Let_def)
qed



subsection \<open>A five-byte payload\<close>

lemma utf8_decode_values_ascii:
  "list_all (\<lambda>v. v < 128) vs \<Longrightarrow> utf8_decode_values eh vs = Inr vs"
  by (induction vs) simp_all

lemma utf8_decode_ascii:
  assumes "list_all (\<lambda>c. (of_char c :: nat) < 128) bs"
  shows "utf8_decode eh bs = Inr (str_of bs)"
proof -
  from assms have "list_all (\<lambda>v. v < 128) (map of_char bs :: nat list)"
    by (simp add: list_all_iff)
  then show ?thesis
    by (simp add: utf8_decode_def str_of_def utf8_decode_values_ascii)
qed

lemma hex_lower_ascii: "is_hex_lower c \<Longrightarrow> (of_char c :: nat) < 128"
  by (auto simp: is_hex_lower_def Let_def)

lemma hex_lower_not_space: "is_hex_lower c \<Longrightarrow> \<not> is_space_byte c"
  by (auto simp: is_hex_lower_def is_space_byte_def Let_def)

lemma hex_lower_not_t: "is_hex_lower c \<Longrightarrow> c \<noteq> CHR ''t''"
  by (auto simp: is_hex_lower_def Let_def)

lemma utf8_decode_hex:
  "list_all is_hex_lower bid \<Longrightarrow> utf8_decode eh bid = Inr (str_of bid)"
  by (rule utf8_decode_ascii) (auto simp: list_all_iff hex_lower_ascii)

lemma find_bytes_skip:
  "\<forall>c \<in> set xs. c \<noteq> n \<Longrightarrow> find_bytes ys (n # ns) = Some i \<Longrightarrow>
   find_bytes (xs @ ys) (n # ns) = Some (length xs + i)"
  by (induction xs) auto

lemma hex32_quote_exact:
  "length h = 32 \<Longrightarrow> list_all is_hex_lower h \<Longrightarrow> hex32_quote (h @ quote # rest) = Some (h, rest)"
  by (simp add: hex32_quote_def)

lemma greedy_plus_two_spaces:
  assumes "h \<noteq> []" and "\<not> is_space_byte (hd h)" and "k (h @ rest) = Some r"
  shows "greedy_plus is_space_byte k (CHR 0x20 # CHR 0x20 # h @ rest) = Some r"
proof -
  from assms obtain c cs where h: "h = c # cs" and c: "\<not> is_space_byte c"
    by (cases h) auto
  have sp: "is_space_byte (CHR 0x20)" by (simp add: is_space_byte_def)
  from h c have "greedy_plus is_space_byte k (h @ rest) = None" by simp
  with sp assms(3) show ?thesis by simp
qed

lemma hello_payload: "clean_payload up ''Hello'' = ''Hello''"
  by (simp add: eval_defs)

lemma no_id_in_tail: "re_findall_ids (text_marker @ [CHR 0x05] @ ''Hello'') = []"
  by (simp add: eval_defs)

text \<open>
  Claim C4. For every identifier \<open>h\<close> of 32 lowercase hexadecimal characters, the buffer
  \<open>id"\<close>, two spaces, \<open>h\<close>, a quote, \<open>text"\<close>, the length byte \<open>0x05\<close> and \<open>Hello\<close> yields the
  map that binds \<open>h\<close> to \<open>Hello\<close>.
\<close>

theorem extracts_hello:
  assumes len: "length h = 32" and hex: "list_all is_hex_lower h"
  shows "extract_buffers_by_id up
           (''id'' @ [quote] @ ''  '' @ h @ [quote] @ ''text'' @ [quote] @ [CHR 0x05] @ ''Hello'')
         = Inr [str_of h \<mapsto> ''Hello'']"
proof -
  define tail where "tail = text_marker @ [CHR 0x05] @ ''Hello''"
  define data where "data = ''id'' @ [quote] @ ''  '' @ h @ [quote] @ tail"
  have data_eq: "''id'' @ [quote] @ ''  '' @ h @ [quote] @ ''text'' @ [quote] @ [CHR 0x05] @ ''Hello'' = data"
    by (simp add: data_def tail_def text_marker_def)
  have data_cons: "data = CHR ''i'' # CHR ''d'' # quote # CHR 0x20 # CHR 0x20 # h @ quote # tail"
    by (simp add: data_def)
  have length_tail: "length tail = 11"
    by (simp add: tail_def text_marker_def)
  have length_data: "length data = 49"
    by (simp add: data_cons len length_tail)
  from len have nonempty: "h \<noteq> []" by auto
  with hex have first: "\<not> is_space_byte (hd h)"
    by (cases h) (auto simp: hex_lower_not_space)
  \<comment> \<open>the identifier pattern matches at the start, and nowhere in the rest\<close>
  have "hex32_quote (h @ quote # tail) = Some (h, tail)"
    using len hex by (rule hex32_quote_exact)
  with nonempty first
  have "greedy_plus is_space_byte hex32_quote (CHR 0x20 # CHR 0x20 # h @ quote # tail) = Some (h, tail)"
    by (rule greedy_plus_two_spaces)
  then have matched: "match_id data = Some (h, tail)"
    by (simp add: match_id_def data_cons)
  then have ids: "re_findall_ids data = [h]"
    using no_id_in_tail by (simp add: data_cons tail_def)
  from matched have "match_id_literal h data"
    by (rule match_id_literal_of_match)
  then have start: "re_search_id h data = Some 0"
    by (simp add: data_cons)
  \<comment> \<open>the window is the whole buffer and the text marker is found after the identifier\<close>
  have window: "search_window data 0 = data"
    by (simp add: search_window_def slice_def length_data)
  define pre where "pre = ''id'' @ [quote] @ ''  '' @ h @ [quote]"
  have split: "data = pre @ tail"
    by (simp add: data_def pre_def)
  have length_pre: "length pre = 38"
    by (simp add: pre_def len)
  have no_t: "\<forall>c \<in> set pre. c \<noteq> CHR ''t''"
    using hex by (auto simp: pre_def quote_def list_all_iff hex_lower_not_t)
  have marker: "text_marker = CHR ''t'' # (''ext'' @ [quote])"
    by (simp add: text_marker_def)
  have "find_bytes tail text_marker = Some 0"
    by (simp add: tail_def text_marker_def)
  with no_t have "find_bytes (pre @ tail) text_marker = Some (length pre + 0)"
    unfolding marker by (rule find_bytes_skip)
  then have found: "find_bytes (search_window data 0) text_marker = Some 38"
    by (simp add: window split [symmetric] length_pre)
  \<comment> \<open>the length byte and the payload\<close>
  have lo: "38 + length text_marker = (43::nat)"
    by (simp add: text_marker_def)
  have tail_cons: "tail = CHR ''t'' # CHR ''e'' # CHR ''x'' # CHR ''t'' # quote # CHR 0x05 # ''Hello''"
    by (simp add: tail_def text_marker_def)
  have nth: "data ! 43 = CHR 0x05"
    by (simp add: data_cons tail_cons nth_append nth_Cons' len)
  have dec: "decode_varint_length (search_window data 0) (int 43) = Inr (5, 1)"
    by (simp add: window decode_varint_length_def getitem_def length_data nth)
  have payload: "slice data 44 49 = ''Hello''"
    by (simp add: slice_def data_cons tail_cons len)
  from extract_window_cases [OF found lo dec, of up]
  have "extract_window up data 0 = Inr ''Hello''"
    by (simp add: window length_data payload hello_payload)
  with start have one: "extract_one up data h = Inr ''Hello''"
    by (simp add: extract_one_def)
  from hex have key: "utf8_decode Strict h = Inr (str_of h)"
    by (rule utf8_decode_hex)
  from ids one key have "extract_buffers_by_id up data = Inr [str_of h \<mapsto> ''Hello'']"
    by (simp add: extract_buffers_by_id_def)
  then show ?thesis by (simp only: data_eq)
qed

theorem extracts_hello_witness:
  "length example_id = 32 \<and> list_all is_hex_lower example_id
   \<and> extract_buffers_by_id (\<lambda>c. False)
        (''id'' @ [quote] @ ''  '' @ example_id @ [quote] @ ''text'' @ [quote] @ [CHR 0x05] @ ''Hello'')
      = Inr [str_of example_id \<mapsto> ''Hello'']"
proof -
  have "length example_id = 32" and "list_all is_hex_lower example_id"
    by (simp_all add: example_id_def is_hex_lower_def)
  with extracts_hello [of example_id "\<lambda>c. False"] show ?thesis by blast
qed

section \<open>Grammars\<close>

subsection \<open>What the patterns capture\<close>

lemma greedy_plus_result:
  "greedy_plus cls k s = Some r \<Longrightarrow> \<exists>s'. k s' = Some r"
proof (induction s)
  case Nil
  then show ?case by simp
next
  case (Cons c cs)
  then show ?case
    by (cases "greedy_plus cls k cs") (auto split: if_splits)
qed

lemma greedy_upto_result:
  "greedy_upto n cls k s = Some r \<Longrightarrow> \<exists>s'. k s' = Some r"
proof (induction n arbitrary: s)
  case 0
  then show ?case by simp
next
  case (Suc n)
  show ?case
  proof (cases s)
    case Nil
    with Suc.prems show ?thesis by simp
  next
    case (Cons c cs)
    with Suc.prems Suc.IH [of cs] show ?thesis
      by (cases "greedy_upto n cls k cs") (auto split: if_splits)
  qed
qed

lemma match_id_hex:
  assumes "match_id s = Some (g, rest)"
  shows "length g = 32 \<and> list_all is_hex_lower g"
proof -
  from assms have "greedy_plus is_space_byte hex32_quote (drop 3 s) = Some (g, rest)"
    by (simp add: match_id_def split: if_splits)
  then have "\<exists>s'. hex32_quote s' = Some (g, rest)"
    by (rule greedy_plus_result)
  then show ?thesis
    by (auto simp: hex32_quote_def Let_def split: if_splits)
qed

lemma findall_ids_hex:
  "bid \<in> set (re_findall_ids data) \<Longrightarrow> length bid = 32 \<and> list_all is_hex_lower bid"
proof (induction data rule: re_findall_ids.induct)
  case 1
  then show ?case by simp
next
  case (2 c cs)
  show ?case
  proof (cases "match_id (c # cs)")
    case None
    with "2.prems" have "bid \<in> set (re_findall_ids cs)" by simp
    with "2.IH"(1) None show ?thesis by blast
  next
    case (Some m)
    obtain g rest where m: "m = (g, rest)" by (cases m)
    with Some have g: "length g = 32 \<and> list_all is_hex_lower g"
      by (simp add: match_id_hex)
    from Some m "2.prems" have "bid = g \<or> bid \<in> set (re_findall_ids rest)" by simp
    then show ?thesis
    proof
      assume "bid = g"
      with g show ?thesis by simp
    next
      assume "bid \<in> set (re_findall_ids rest)"
      with "2.IH"(2) Some m show ?thesis by blast
    qed
  qed
qed

lemma hex_is_ascii: "list_all is_hex_lower bid \<Longrightarrow> is_ascii bid"
  by (auto simp: is_ascii_def list_all_iff hex_lower_ascii)

lemma utf8_decode_is_ascii: "is_ascii bs \<Longrightarrow> utf8_decode eh bs = Inr (str_of bs)"
  unfolding is_ascii_def by (rule utf8_decode_ascii)

lemma grammar_tag_ascii:
  assumes "grammar_tag s = Some (g, rest)"
  shows "is_ascii g"
proof -
  have tw: "list_all (\<lambda>c. (of_char c :: nat) < 128) (takeWhile is_grammar_char zs)" for zs
    by (auto simp: list_all_iff is_grammar_char_def Let_def dest!: set_takeWhileD)
  from assms show ?thesis
    by (auto simp: grammar_tag_def Let_def is_ascii_def tw split: if_splits)
qed

lemma match_grammar_parts:
  assumes "match_grammar s = Some (bid, g, rest)"
  shows "list_all is_hex_lower bid \<and> is_ascii g"
proof -
  from assms have hex: "list_all is_hex_lower bid"
    by (auto simp: match_grammar_def Let_def split: if_splits option.splits)
  from assms have "greedy_upto 5 is_ctrl_or_space grammar_tag (drop 33 s) = Some (g, rest)"
    by (auto simp: match_grammar_def Let_def split: if_splits option.splits)
  then have "\<exists>s'. grammar_tag s' = Some (g, rest)"
    by (rule greedy_upto_result)
  with hex show ?thesis by (auto simp: grammar_tag_ascii)
qed

lemma findall_grammars_parts:
  "(bid, g) \<in> set (re_findall_grammars data) \<Longrightarrow> list_all is_hex_lower bid \<and> is_ascii g"
proof (induction data rule: re_findall_grammars.induct)
  case 1
  then show ?case by simp
next
  case (2 c cs)
  show ?case
  proof (cases "match_grammar (c # cs)")
    case None
    with 2 show ?thesis by simp
  next
    case (Some m)
    obtain b gr rest where m: "m = (b, gr, rest)" by (cases m)
    with Some have "list_all is_hex_lower b \<and> is_ascii gr"
      by (simp add: match_grammar_parts)
    with 2 Some m show ?thesis by auto
  qed
qed

lemma grammars_loop_fold:
  "\<forall>p \<in> set ms. is_ascii (fst p) \<and> is_ascii (snd p) \<Longrightarrow>
   grammars_loop ms m = Inr (fold (\<lambda>p acc. acc(str_of (fst p) \<mapsto> str_of (snd p))) ms m)"
  by (induction ms arbitrary: m) (auto simp: utf8_decode_is_ascii)

lemma str_of_inject: "str_of a = str_of b \<Longrightarrow> a = b"
proof -
  have "inj (of_char :: char \<Rightarrow> nat)"
    by (rule injI) simp
  then have "inj (map (of_char :: char \<Rightarrow> nat))" by simp
  then show "str_of a = str_of b \<Longrightarrow> a = b"
    by (simp add: str_of_def inj_eq)
qed

lemma fold_update_other:
  "bid \<notin> fst ` set ms \<Longrightarrow>
   fold (\<lambda>p acc. acc(str_of (fst p) \<mapsto> str_of (snd p))) ms m (str_of bid) = m (str_of bid)"
  by (induction ms arbitrary: m) (auto dest: str_of_inject)

lemma last_match_wins:
  assumes "re_findall_grammars data = ms1 @ (bid, g) # ms2" and "bid \<notin> fst ` set ms2"
  shows "\<exists>grammars. extract_buffer_grammars data = Inr grammars
           \<and> grammars (str_of bid) = Some (str_of g)"
proof -
  let ?f = "\<lambda>p acc. acc(str_of (fst p) \<mapsto> str_of (snd p))"
  have "\<forall>p \<in> set (re_findall_grammars data). is_ascii (fst p) \<and> is_ascii (snd p)"
    by (auto dest!: findall_grammars_parts simp: hex_is_ascii)
  then have "extract_buffer_grammars data = Inr (fold ?f (re_findall_grammars data) Map.empty)"
    unfolding extract_buffer_grammars_def by (rule grammars_loop_fold)
  moreover have "fold ?f (re_findall_grammars data) Map.empty (str_of bid) = Some (str_of g)"
    using assms(2) by (simp add: assms(1) fold_update_other)
  ultimately show ?thesis by simp
qed

lemma extract_buffer_grammars_total: "\<exists>grammars. extract_buffer_grammars data = Inr grammars"
proof -
  have "\<forall>p \<in> set (re_findall_grammars data). is_ascii (fst p) \<and> is_ascii (snd p)"
    by (auto dest!: findall_grammars_parts simp: hex_is_ascii)
  then show ?thesis
    unfolding extract_buffer_grammars_def by (simp add: grammars_loop_fold)
qed

text \<open>
  The list that \<open>re.findall\<close> returns is in the order of the positions: each match is found
  at some position of the input, and the matches after it in the list are those found in
  the input after its end.
\<close>

lemma greedy_upto_suffix:
  "\<forall>r x y. k r = Some (x, y) \<longrightarrow> suffix y r \<Longrightarrow>
   greedy_upto n cls k s = Some (g, rest) \<Longrightarrow> suffix rest s"
proof (induction n arbitrary: s)
  case 0
  then show ?case by simp
next
  case (Suc n)
  show ?case
  proof (cases s)
    case Nil
    with Suc.prems(2) show ?thesis by simp
  next
    case (Cons c cs)
    show ?thesis
    proof (cases "greedy_upto n cls k cs")
      case None
      with Suc.prems(2) Cons have "k cs = Some (g, rest)"
        by (simp split: if_splits)
      with Suc.prems(1) have "suffix rest cs" by blast
      with Cons show ?thesis by (simp add: suffix_ConsI)
    next
      case (Some r)
      with Suc.prems(2) Cons have "greedy_upto n cls k cs = Some (g, rest)"
        by (simp split: if_splits)
      with Suc.IH Suc.prems(1) have "suffix rest cs" by blast
      with Cons show ?thesis by (simp add: suffix_ConsI)
    qed
  qed
qed

lemma suffix_dropWhile_drop: "suffix (dropWhile P (drop n r)) r"
  by (rule suffix_order.trans [OF suffix_dropWhile suffix_drop])

lemma grammar_tag_suffix: "grammar_tag r = Some (x, y) \<Longrightarrow> suffix y r"
  by (auto simp: grammar_tag_def Let_def suffix_dropWhile_drop split: if_splits)

lemma match_grammar_suffix:
  assumes "match_grammar s = Some (bid, grammar, rest)"
  shows "suffix rest s"
proof -
  from assms
  have m: "greedy_upto 5 is_ctrl_or_space grammar_tag (drop 33 s) = Some (grammar, rest)"
    by (auto simp: match_grammar_def Let_def split: if_splits option.splits)
  have "suffix rest (drop 33 s)"
  proof (rule greedy_upto_suffix)
    show "\<forall>r x y. grammar_tag r = Some (x, y) \<longrightarrow> suffix y r"
      by (intro allI impI) (rule grammar_tag_suffix)
    show "greedy_upto 5 is_ctrl_or_space grammar_tag (drop 33 s) = Some (grammar, rest)"
      by (fact m)
  qed
  then show ?thesis
    by (rule suffix_order.trans) (rule suffix_drop)
qed

lemma findall_grammars_order:
  "re_findall_grammars data = ms1 @ (bid, g) # ms2 \<Longrightarrow>
   \<exists>before at rest. data = before @ at \<and> match_grammar at = Some (bid, g, rest)
      \<and> suffix rest at \<and> re_findall_grammars rest = ms2"
proof (induction "length data" arbitrary: data ms1 rule: less_induct)
  case less
  show ?case
  proof (cases data)
    case Nil
    with less.prems show ?thesis by simp
  next
    case (Cons c cs)
    show ?thesis
    proof (cases "match_grammar (c # cs)")
      case None
      with less.prems Cons have found: "re_findall_grammars cs = ms1 @ (bid, g) # ms2"
        by simp
      from Cons have "length cs < length data" by simp
      from less.hyps [OF this found] obtain before at rest
        where cs: "cs = before @ at" and r: "match_grammar at = Some (bid, g, rest)"
          and s: "suffix rest at" and f: "re_findall_grammars rest = ms2"
        by auto
      from cs Cons have "data = (c # before) @ at" by simp
      with r s f show ?thesis by (intro exI conjI)
    next
      case (Some m)
      obtain b gr rest where m: "m = (b, gr, rest)" by (cases m)
      from Some m have suf: "suffix rest (c # cs)"
        by (simp add: match_grammar_suffix)
      from Some m have "length rest < length (c # cs)"
        by (intro match_grammar_shorter) simp
      with Cons have shorter: "length rest < length data" by simp
      from Some m less.prems Cons
      have eq: "(b, gr) # re_findall_grammars rest = ms1 @ (bid, g) # ms2"
        by simp
      show ?thesis
      proof (cases ms1)
        case Nil
        with eq have same: "b = bid" "gr = g" and f: "re_findall_grammars rest = ms2"
          by simp_all
        from Some m same Cons have r: "match_grammar data = Some (bid, g, rest)" by simp
        have d: "data = [] @ data" by simp
        from suf Cons have s: "suffix rest data" by simp
        from d r s f show ?thesis by (intro exI conjI)
      next
        case (Cons m1 ms1')
        with eq have found: "re_findall_grammars rest = ms1' @ (bid, g) # ms2" by simp
        from less.hyps [OF shorter found] obtain before at rest'
          where at: "rest = before @ at" and r: "match_grammar at = Some (bid, g, rest')"
            and s: "suffix rest' at" and f: "re_findall_grammars rest' = ms2"
          by auto
        from suf obtain front where "c # cs = front @ rest" by (auto simp: suffix_def)
        with at \<open>data = c # cs\<close> have "data = (front @ before) @ at" by simp
        with r s f show ?thesis by (intro exI conjI)
      qed
    qed
  qed
qed

subsection \<open>The scan of the files never raises\<close>

lemma extract_window_total: "\<exists>recorded. extract_window up data start_pos = Inr recorded"
proof (cases "find_bytes (search_window data start_pos) text_marker")
  case None
  then show ?thesis by (simp add: extract_window_def Let_def)
next
  case (Some text_pos)
  obtain text_length bytes_consumed
    where "decode_varint_length (search_window data start_pos)
             (int (text_pos + length text_marker)) = Inr (text_length, bytes_consumed)"
    using decode_varint_length_total [of "int (text_pos + length text_marker)"
        "search_window data start_pos"] by auto
  from extract_window_cases [OF Some refl this, of up] show ?thesis
    by (simp split: if_splits)
qed

lemma extract_one_total: "\<exists>recorded. extract_one up data bid = Inr recorded"
  by (cases "re_search_id bid data") (simp_all add: extract_one_def extract_window_total)

lemma buffers_loop_total:
  "\<forall>bid \<in> set bids. list_all is_hex_lower bid \<Longrightarrow>
   \<exists>buffers. buffers_loop up data bids buffer_texts = Inr buffers"
proof (induction bids arbitrary: buffer_texts)
  case Nil
  then show ?case by simp
next
  case (Cons bid bids)
  obtain recorded where "extract_one up data bid = Inr recorded"
    using extract_one_total by blast
  moreover from Cons.prems have "utf8_decode Strict bid = Inr (str_of bid)"
    by (simp add: utf8_decode_hex)
  moreover from Cons.prems
  have "\<exists>buffers. buffers_loop up data bids (buffer_texts(str_of bid \<mapsto> recorded)) = Inr buffers"
    by (intro Cons.IH) simp
  ultimately show ?case by simp
qed

lemma extract_buffers_by_id_total: "\<exists>buffers. extract_buffers_by_id up data = Inr buffers"
  unfolding extract_buffers_by_id_def
  by (rule buffers_loop_total) (simp add: findall_ids_hex)

lemma scan_files_total: "\<exists>agg'. scan_files up files agg = Inr agg'"
proof (induction files arbitrary: agg)
  case Nil
  then show ?case by simp
next
  case (Cons f files)
  show ?case
  proof (cases f)
    case None
    with Cons.IH show ?thesis by simp
  next
    case (Some data)
    obtain buffers grammars
      where "extract_buffers_by_id up data = Inr buffers"
        and "extract_buffer_grammars data = Inr grammars"
      using extract_buffers_by_id_total extract_buffer_grammars_total by blast
    with Some Cons.IH show ?thesis by simp
  qed
qed

text \<open>The texts of the aggregate are the per-file maps merged in the order of the scan.\<close>

lemma scan_files_texts:
  "scan_files up files agg = Inr agg' \<Longrightarrow>
   all_buffers agg' = merge_all (file_texts up files) (all_buffers agg)"
proof (induction files arbitrary: agg)
  case Nil
  then show ?case by (simp add: file_texts_def merge_all_def)
next
  case (Cons f files)
  show ?case
  proof (cases f)
    case None
    with Cons.prems have "scan_files up files agg = Inr agg'" by simp
    from Cons.IH [OF this] None show ?thesis
      by (simp add: file_texts_def)
  next
    case (Some data)
    obtain buffers grammars
      where b: "extract_buffers_by_id up data = Inr buffers"
        and g: "extract_buffer_grammars data = Inr grammars"
      using extract_buffers_by_id_total extract_buffer_grammars_total by blast
    let ?next = "\<lparr>all_buffers = merge_buffers buffers (all_buffers agg),
                  all_grammars = all_grammars agg ++ grammars\<rparr>"
    from Cons.prems Some b g have "scan_files up files ?next = Inr agg'" by simp
    from Cons.IH [OF this] Some b show ?thesis
      by (simp add: file_texts_def merge_all_def)
  qed
qed

lemma scan_files_append:
  "scan_files up (xs @ ys) agg =
     (case scan_files up xs agg of Inl e \<Rightarrow> Inl e | Inr agg' \<Rightarrow> scan_files up ys agg')"
proof (induction xs arbitrary: agg)
  case Nil
  then show ?case by simp
next
  case (Cons f xs)
  then show ?case
    by (cases f) (simp_all split: sum.splits)
qed

lemma scan_files_keeps_grammar:
  assumes "\<forall>d gs. Some d \<in> set files \<and> extract_buffer_grammars d = Inr gs \<longrightarrow> gs key = None"
    and "scan_files up files agg = Inr agg'"
  shows "all_grammars agg' key = all_grammars agg key"
  using assms
proof (induction files arbitrary: agg)
  case Nil
  then show ?case by simp
next
  case (Cons f files)
  show ?case
  proof (cases f)
    case None
    with Cons show ?thesis by simp
  next
    case (Some data)
    obtain buffers grammars
      where b: "extract_buffers_by_id up data = Inr buffers"
        and g: "extract_buffer_grammars data = Inr grammars"
      using extract_buffers_by_id_total extract_buffer_grammars_total by blast
    let ?next = "\<lparr>all_buffers = merge_buffers buffers (all_buffers agg),
                  all_grammars = all_grammars agg ++ grammars\<rparr>"
    from Cons.prems(2) Some b g have run: "scan_files up files ?next = Inr agg'" by simp
    from Cons.prems(1) Some g have "grammars key = None" by auto
    moreover from Cons.prems(1)
    have "\<forall>d gs. Some d \<in> set files \<and> extract_buffer_grammars d = Inr gs \<longrightarrow> gs key = None"
      by auto
    from Cons.IH [OF this run] have "all_grammars agg' key = all_grammars ?next key" .
    ultimately show ?thesis by (simp add: map_add_def)
  qed
qed

lemma later_file_wins:
  assumes g: "extract_buffer_grammars data = Inr grammars" and k: "grammars key = Some v"
    and later: "\<forall>d gs. Some d \<in> set post \<and> extract_buffer_grammars d = Inr gs \<longrightarrow> gs key = None"
  shows "\<exists>agg'. scan_files up (pre @ Some data # post) agg = Inr agg'
           \<and> all_grammars agg' key = Some v"
proof -
  obtain agg1 where pre: "scan_files up pre agg = Inr agg1"
    using scan_files_total by blast
  obtain buffers where b: "extract_buffers_by_id up data = Inr buffers"
    using extract_buffers_by_id_total by blast
  let ?next = "\<lparr>all_buffers = merge_buffers buffers (all_buffers agg1),
                all_grammars = all_grammars agg1 ++ grammars\<rparr>"
  obtain agg' where post: "scan_files up post ?next = Inr agg'"
    using scan_files_total by blast
  from scan_files_keeps_grammar [OF later post] k
  have "all_grammars agg' key = Some v" by simp
  moreover from pre b g post have "scan_files up (pre @ Some data # post) agg = Inr agg'"
    by (simp add: scan_files_append)
  ultimately show ?thesis by blast
qed

text \<open>
  Claim C5. Grammar merging is last-write-wins at both levels. Within a buffer, the map
  returned by \<open>extract_buffer_grammars\<close> holds, for an identifier, the grammar of the last
  of the matches that \<open>re.findall\<close> returns for it (they come in the order of their
  positions, \<open>findall_grammars_order\<close>). Across files, the aggregate map holds the grammar of the file scanned last
  among those that yield one for the identifier, whatever the files before it yielded.
\<close>

theorem grammar_last_write_wins:
  "(re_findall_grammars data = ms1 @ (bid, g) # ms2 \<and> bid \<notin> fst ` set ms2
      \<longrightarrow> (\<exists>grammars. extract_buffer_grammars data = Inr grammars
                \<and> grammars (str_of bid) = Some (str_of g)))
   \<and> (extract_buffer_grammars later = Inr later_grammars \<and> later_grammars key = Some v
        \<and> (\<forall>d gs. Some d \<in> set post \<and> extract_buffer_grammars d = Inr gs \<longrightarrow> gs key = None)
      \<longrightarrow> (\<exists>agg'. scan_files up (pre @ Some later # post) agg = Inr agg'
                \<and> all_grammars agg' key = Some v))"
proof (intro conjI impI)
  assume "re_findall_grammars data = ms1 @ (bid, g) # ms2 \<and> bid \<notin> fst ` set ms2"
  then show "\<exists>grammars. extract_buffer_grammars data = Inr grammars
               \<and> grammars (str_of bid) = Some (str_of g)"
    using last_match_wins by blast
next
  assume "extract_buffer_grammars later = Inr later_grammars \<and> later_grammars key = Some v
            \<and> (\<forall>d gs. Some d \<in> set post \<and> extract_buffer_grammars d = Inr gs \<longrightarrow> gs key = None)"
  then have g: "extract_buffer_grammars later = Inr later_grammars"
    and k: "later_grammars key = Some v"
    and p: "\<forall>d gs. Some d \<in> set post \<and> extract_buffer_grammars d = Inr gs \<longrightarrow> gs key = None"
    by blast+
  from g k p show "\<exists>agg'. scan_files up (pre @ Some later # post) agg = Inr agg'
                     \<and> all_grammars agg' key = Some v"
    by (rule later_file_wins)
qed

theorem grammar_last_write_wins_witness:
  "re_findall_grammars (example_file_python @ [CHR 0x00] @ example_file_ruby)
     = [(example_id, ''source.python'')] @ (example_id, ''source.ruby'') # []
   \<and> example_id \<notin> fst ` set ([] :: (bytes \<times> bytes) list)
   \<and> (\<exists>grammars. extract_buffer_grammars (example_file_python @ [CHR 0x00] @ example_file_ruby)
                      = Inr grammars
         \<and> grammars (str_of example_id) = Some (str_of ''source.ruby''))
   \<and> extract_buffer_grammars example_file_ruby = Inr [str_of example_id \<mapsto> str_of ''source.ruby'']
   \<and> (\<exists>agg'. scan_files (\<lambda>c. False) ([Some example_file_python] @ Some example_file_ruby # [])
                 \<lparr>all_buffers = Map.empty, all_grammars = Map.empty\<rparr> = Inr agg'
         \<and> all_grammars agg' (str_of example_id) = Some (str_of ''source.ruby''))"
proof -
  let ?both = "example_file_python @ [CHR 0x00] @ example_file_ruby"
  have matches: "re_findall_grammars ?both
                   = [(example_id, ''source.python'')] @ (example_id, ''source.ruby'') # []"
    by (simp add: example_file_python_def example_file_ruby_def example_id_def eval_defs)
  have none: "example_id \<notin> fst ` set ([] :: (bytes \<times> bytes) list)"
    by simp
  have ruby: "extract_buffer_grammars example_file_ruby
                = Inr [str_of example_id \<mapsto> str_of ''source.ruby'']"
    by (simp add: example_file_ruby_def example_id_def eval_defs)
  have key: "[str_of example_id \<mapsto> str_of ''source.ruby''] (str_of example_id)
               = Some (str_of ''source.ruby'')"
    by simp
  have post: "\<forall>d gs. Some d \<in> set [] \<and> extract_buffer_grammars d = Inr gs
                \<longrightarrow> gs (str_of example_id) = None"
    by simp
  note inst = grammar_last_write_wins [of ?both "[(example_id, ''source.python'')]" example_id
      "''source.ruby''" "[]" example_file_ruby "[str_of example_id \<mapsto> str_of ''source.ruby'']"
      "str_of example_id" "str_of ''source.ruby''" "[]" "\<lambda>c. False" "[Some example_file_python]"
      "\<lparr>all_buffers = Map.empty, all_grammars = Map.empty\<rparr>"]
  from inst matches none
  have a: "\<exists>grammars. extract_buffer_grammars ?both = Inr grammars
             \<and> grammars (str_of example_id) = Some (str_of ''source.ruby'')"
    by blast
  from inst ruby key post
  have b: "\<exists>agg'. scan_files (\<lambda>c. False) ([Some example_file_python] @ Some example_file_ruby # [])
                     \<lparr>all_buffers = Map.empty, all_grammars = Map.empty\<rparr> = Inr agg'
             \<and> all_grammars agg' (str_of example_id) = Some (str_of ''source.ruby'')"
    by blast
  from matches none a ruby b show ?thesis by blast
qed

end
